theory Spec2Isabelle
  imports Main "HOL-Library.Multiset"
begin

section \<open>JavaScript strings\<close>

text \<open>
  A JavaScript string is modelled as a \<open>char list\<close> of code units below 256.
  \<open>isSpace\<close> is the class \<open>\s\<close> (and what \<open>trim()\<close> strips) on that range:
  TAB, LF, VT, FF, CR, SPACE and NBSP.  \<open>lower\<close> is the case folding of the \<open>i\<close>
  flag, which on this range only identifies \<open>A-Z\<close> with \<open>a-z\<close>.
\<close>

definition isDigit :: "char \<Rightarrow> bool" where
  "isDigit c = (c \<in> set ''0123456789'')"

definition isSpace :: "char \<Rightarrow> bool" where
  "isSpace c = (c \<in> set [CHR 0x09, CHR 0x0A, CHR 0x0B, CHR 0x0C, CHR 0x0D, CHR 0x20, CHR 0xA0])"

definition isQuote :: "char \<Rightarrow> bool" where
  "isQuote c = (c = CHR 0x27 \<or> c = CHR 0x22)"

definition notQuoteSpace :: "char \<Rightarrow> bool" where
  "notQuoteSpace c = (\<not> isQuote c \<and> \<not> isSpace c)"

definition lower :: "char \<Rightarrow> char" where
  "lower c =
     (case map_of (zip ''ABCDEFGHIJKLMNOPQRSTUVWXYZ'' ''abcdefghijklmnopqrstuvwxyz'') c of
        None \<Rightarrow> c
      | Some d \<Rightarrow> d)"


text \<open>\<open>s.startsWith(p)\<close>; with \<open>ci\<close> the comparison of a literal under the \<open>i\<close> flag.\<close>

fun startsWith :: "bool \<Rightarrow> string \<Rightarrow> string \<Rightarrow> bool" where
  "startsWith ci s [] = True"
| "startsWith ci [] (p # ps) = False"
| "startsWith ci (c # cs) (p # ps) =
     ((if ci then lower c = lower p else c = p) \<and> startsWith ci cs ps)"

text \<open>\<open>s.includes(sub)\<close>.\<close>

fun strIncludes :: "string \<Rightarrow> string \<Rightarrow> bool" where
  "strIncludes [] sub = (sub = [])"
| "strIncludes (c # cs) sub = (startsWith False (c # cs) sub \<or> strIncludes cs sub)"

text \<open>\<open>s.trim()\<close>.\<close>

definition trim :: "string \<Rightarrow> string" where
  "trim s = rev (dropWhile isSpace (rev (dropWhile isSpace s)))"

text \<open>\<open>s.split(sep)\<close> for a one-character separator: never the empty list.\<close>

fun strSplit :: "char \<Rightarrow> string \<Rightarrow> string list" where
  "strSplit sep [] = [[]]"
| "strSplit sep (c # cs) =
     (let ps = strSplit sep cs in if c = sep then [] # ps else (c # hd ps) # tl ps)"

section \<open>Regular expressions\<close>

text \<open>
  The fragment of JavaScript regular expressions the scraper uses.  A pattern is a
  sequence of items: a literal, a greedy character class with \<open>+\<close> or \<open>*\<close>, a greedy
  optional group \<open>(?:...)?\<close>, an ordered alternation, a capture-group boundary and the
  anchor \<open>$\<close> (no \<open>m\<close> flag: end of input only).
\<close>

datatype rx =
    Lit string
  | Plus "char \<Rightarrow> bool"
  | Star "char \<Rightarrow> bool"
  | Opt "rx list"
  | Alt "rx list list"
  | Mark
  | Eos

fun rsize :: "rx \<Rightarrow> nat" where
  "rsize (Lit l) = 1"
| "rsize (Plus p) = 2"
| "rsize (Star p) = 1"
| "rsize (Opt g) = Suc (sum_list (map rsize g))"
| "rsize (Alt as) = Suc (sum_list (map (\<lambda>a. Suc (sum_list (map rsize a))) as))"
| "rsize Mark = 1"
| "rsize Eos = 1"

text \<open>
  The backtracking matcher, anchored at the start of \<open>s\<close>: it returns the input left
  after the first match in the engine's priority order (a greedy quantifier tries the
  longest run first, an alternation its branches from left to right, an optional group
  is tried before it is skipped), and the input lengths seen at the capture boundaries,
  newest first.  \<open>ci\<close> is the \<open>i\<close> flag.
\<close>

function rx_match :: "bool \<Rightarrow> rx list \<Rightarrow> string \<Rightarrow> nat list \<Rightarrow> (string \<times> nat list) option" where
  "rx_match ci [] s ms = Some (s, ms)"
| "rx_match ci (Lit l # rs) s ms =
     (if startsWith ci s l then rx_match ci rs (drop (length l) s) ms else None)"
| "rx_match ci (Plus p # rs) s ms =
     (case s of [] \<Rightarrow> None
      | c # cs \<Rightarrow> if p c then rx_match ci (Star p # rs) cs ms else None)"
| "rx_match ci (Star p # rs) s ms =
     (case s of [] \<Rightarrow> rx_match ci rs [] ms
      | c # cs \<Rightarrow>
          if p c then
            (case rx_match ci (Star p # rs) cs ms of
               Some r \<Rightarrow> Some r
             | None \<Rightarrow> rx_match ci rs s ms)
          else rx_match ci rs s ms)"
| "rx_match ci (Opt g # rs) s ms =
     (case rx_match ci (g @ rs) s ms of Some r \<Rightarrow> Some r | None \<Rightarrow> rx_match ci rs s ms)"
| "rx_match ci (Alt [] # rs) s ms = None"
| "rx_match ci (Alt (a # as) # rs) s ms =
     (case rx_match ci (a @ rs) s ms of
        Some r \<Rightarrow> Some r
      | None \<Rightarrow> rx_match ci (Alt as # rs) s ms)"
| "rx_match ci (Mark # rs) s ms = rx_match ci rs s (length s # ms)"
| "rx_match ci (Eos # rs) s ms = (if s = [] then rx_match ci rs s ms else None)"
  by pat_completeness auto
termination
  by (relation "measures [\<lambda>(ci, rs, s, ms). sum_list (map rsize rs),
                          \<lambda>(ci, rs, s, ms). length s]") auto

text \<open>
  The text of capture group 1 of a match that started at \<open>s\<close>: the input between the
  first two boundaries; the empty string when the group took no part.
\<close>

definition group1 :: "string \<Rightarrow> nat list \<Rightarrow> string" where
  "group1 s ms =
     (case rev ms of
        b # e # _ \<Rightarrow> take (b - e) (drop (length s - b) s)
      | _ \<Rightarrow> [])"

text \<open>
  \<open>regex.exec(s)\<close> without the \<open>g\<close> flag: the leftmost match, as the text before it,
  the matched text, the text after it and group 1.
\<close>

fun rx_find :: "bool \<Rightarrow> rx list \<Rightarrow> string \<Rightarrow> (string \<times> string \<times> string \<times> string) option" where
  "rx_find ci r [] =
     (case rx_match ci r [] [] of
        Some (rest, ms) \<Rightarrow> Some ([], [], [], group1 [] ms)
      | None \<Rightarrow> None)"
| "rx_find ci r (c # cs) =
     (case rx_match ci r (c # cs) [] of
        Some (rest, ms) \<Rightarrow>
          Some ([], take (Suc (length cs) - length rest) (c # cs), rest, group1 (c # cs) ms)
      | None \<Rightarrow>
          (case rx_find ci r cs of
             Some (before, matched, after, g) \<Rightarrow> Some (c # before, matched, after, g)
           | None \<Rightarrow> None))"

text \<open>\<open>regex.test(s)\<close>, and the truth value of \<open>s.match(regex)\<close>.\<close>

definition rx_test :: "bool \<Rightarrow> rx list \<Rightarrow> string \<Rightarrow> bool" where
  "rx_test ci r s = (rx_find ci r s \<noteq> None)"

text \<open>
  \<open>s.match(regex)\<close> with the \<open>g\<close> flag: every match from left to right, the scan
  resuming at the end of the previous match (\<open>skip\<close> counts the characters of the
  current match still to pass; after an empty match the scan moves on by one).
  JavaScript returns \<open>null\<close> for no match, which the callers treat as no iteration.
\<close>

fun rx_matchAll_from :: "bool \<Rightarrow> rx list \<Rightarrow> nat \<Rightarrow> string \<Rightarrow> string list" where
  "rx_matchAll_from ci r skip [] =
     (if skip = 0 then (case rx_match ci r [] [] of Some _ \<Rightarrow> [[]] | None \<Rightarrow> []) else [])"
| "rx_matchAll_from ci r skip (c # cs) =
     (if 0 < skip then rx_matchAll_from ci r (skip - 1) cs
      else
        (case rx_match ci r (c # cs) [] of
           None \<Rightarrow> rx_matchAll_from ci r 0 cs
         | Some (rest, ms) \<Rightarrow>
             (let n = Suc (length cs) - length rest
              in take n (c # cs) # rx_matchAll_from ci r (n - 1) cs)))"

definition rx_matchAll :: "bool \<Rightarrow> rx list \<Rightarrow> string \<Rightarrow> string list" where
  "rx_matchAll ci r s = rx_matchAll_from ci r 0 s"

text \<open>\<open>s.replace(regex, repl)\<close> with the \<open>g\<close> flag and a replacement without \<open>$\<close>.\<close>

fun rx_replaceAll_from :: "bool \<Rightarrow> rx list \<Rightarrow> string \<Rightarrow> nat \<Rightarrow> string \<Rightarrow> string" where
  "rx_replaceAll_from ci r repl skip [] =
     (if skip = 0 then (case rx_match ci r [] [] of Some _ \<Rightarrow> repl | None \<Rightarrow> []) else [])"
| "rx_replaceAll_from ci r repl skip (c # cs) =
     (if 0 < skip then rx_replaceAll_from ci r repl (skip - 1) cs
      else
        (case rx_match ci r (c # cs) [] of
           None \<Rightarrow> c # rx_replaceAll_from ci r repl 0 cs
         | Some (rest, ms) \<Rightarrow>
             (let n = Suc (length cs) - length rest
              in if n = 0 then repl @ c # rx_replaceAll_from ci r repl 0 cs
                 else repl @ rx_replaceAll_from ci r repl (n - 1) cs)))"

definition rx_replaceAll :: "bool \<Rightarrow> rx list \<Rightarrow> string \<Rightarrow> string \<Rightarrow> string" where
  "rx_replaceAll ci r repl s = rx_replaceAll_from ci r repl 0 s"

text \<open>
  \<open>s.replace(regex, template)\<close> without the \<open>g\<close> flag: the leftmost match is replaced
  by the template, in which \<open>G1\<close> stands for \<open>$1\<close>.
\<close>

datatype piece = T string | G1

fun expand :: "piece list \<Rightarrow> string \<Rightarrow> string" where
  "expand [] g = []"
| "expand (T t # ps) g = t @ expand ps g"
| "expand (G1 # ps) g = g @ expand ps g"

definition rx_replaceFirst :: "bool \<Rightarrow> rx list \<Rightarrow> piece list \<Rightarrow> string \<Rightarrow> string" where
  "rx_replaceFirst ci r tmpl s =
     (case rx_find ci r s of
        None \<Rightarrow> s
      | Some (before, matched, after, g) \<Rightarrow> before @ expand tmpl g @ after)"

text \<open>An alternation of literals, \<open>a|b|c\<close>.\<close>

definition lits :: "string list \<Rightarrow> rx" where
  "lits ls = Alt (map (\<lambda>l. [Lit l]) ls)"

text \<open>\<open>(?:jpg|jpeg|png|webp|gif)\<close>.\<close>

definition imageExt :: rx where
  "imageExt = lits [''jpg'', ''jpeg'', ''png'', ''webp'', ''gif'']"

section \<open>ImageUrlExtractor: canonicalisation of a matched URL\<close>

text \<open>
  The patterns of \<open>extractFromResponse\<close>'s high-resolution step:
  \<open>/_960x960|_800x800|_1200x1200|_1600x1600/\<close>, \<open>/_50x50|_100x100|_80x80/\<close>,
  \<open>/_\d+x\d+/\<close> and \<open>/\.(jpg|jpeg|png|webp|gif)$/i\<close>.
\<close>

definition highResRx :: "rx list" where
  "highResRx = [lits [''_960x960'', ''_800x800'', ''_1200x1200'', ''_1600x1600'']]"

definition lowResRx :: "rx list" where
  "lowResRx = [lits [''_50x50'', ''_100x100'', ''_80x80'']]"

definition sizeRx :: "rx list" where
  "sizeRx = [Lit ''_'', Plus isDigit, Lit ''x'', Plus isDigit]"

definition extEndRx :: "rx list" where
  "extEndRx = [Lit ''.'', Mark, imageExt, Mark, Eos]"

text \<open>\<open>urlParts[1] ? '?' + urlParts[1] : ''\<close>: a missing or empty second part is falsy.\<close>

definition queryStringOf :: "string list \<Rightarrow> string" where
  "queryStringOf urlParts =
     (case urlParts of
        _ # q # _ \<Rightarrow> if q = [] then [] else ''?'' @ q
      | _ \<Rightarrow> [])"

text \<open>\<open>match.replace(/['"]/g, '').trim()\<close>.\<close>

definition cleanUrl :: "string \<Rightarrow> string" where
  "cleanUrl match = trim (filter (\<lambda>c. \<not> isQuote c) match)"

text \<open>
  The \<open>if\<close>/\<open>else if\<close> chain that prefers high-resolution versions: an already
  high-resolution URL is left alone, a thumbnail marker is replaced in the part before
  the first \<open>?\<close>, and a CDN URL without any size marker gets the marker before its
  extension.  The query string re-attached is \<open>urlParts[1]\<close>.
\<close>

definition upgradeUrl :: "string \<Rightarrow> string" where
  "upgradeUrl u =
     (if rx_test False highResRx u then u
      else if rx_test False lowResRx u then
        (let urlParts = strSplit (CHR ''?'') u;
             baseUrl = hd urlParts;
             queryString = queryStringOf urlParts
         in rx_replaceAll False lowResRx ''_960x960q80'' baseUrl @ queryString)
      else if strIncludes u ''alicdn.com'' \<and> \<not> rx_test False sizeRx u then
        (let urlParts = strSplit (CHR ''?'') u;
             baseUrl = hd urlParts;
             queryString = queryStringOf urlParts
         in if rx_test True extEndRx baseUrl \<and> \<not> rx_test False sizeRx baseUrl
            then rx_replaceFirst True extEndRx [T ''_960x960q80.'', G1] baseUrl @ queryString
            else u)
      else u)"

text \<open>
  The canonicalisation of one raw match: quotes and surrounding whitespace are removed,
  a \<open>data:\<close> URI is rejected (\<open>None\<close>), anything else goes through \<open>upgradeUrl\<close>.
\<close>

definition canonicalize :: "string \<Rightarrow> string option" where
  "canonicalize match =
     (let c = cleanUrl match
      in if startsWith False c ''data:'' then None else Some (upgradeUrl c))"

section \<open>ImageUrlExtractor: the store and \<open>extractFromResponse\<close>\<close>

text \<open>
  The six \<open>imagePatterns\<close>, in the source's order, all with the flags \<open>gi\<close>:
  the two CDN path shapes, the general CDN shape, the shape with a high-resolution size,
  any image URL, and base64 data URIs.
\<close>

definition httpPrefix :: "rx list" where
  "httpPrefix = [Lit ''http'', Opt [Lit ''s''], Lit ''://'']"

definition extTail :: "rx list" where
  "extTail = [Lit ''.'', imageExt, Opt [Lit ''?'', Star notQuoteSpace]]"

definition isBase64 :: "char \<Rightarrow> bool" where
  "isBase64 c = (lower c \<in> set ''abcdefghijklmnopqrstuvwxyz0123456789+/='')"

definition imagePatterns :: "rx list list" where
  "imagePatterns =
     [ httpPrefix @ [Lit ''s.alicdn.com/@sc'', Plus isDigit, Lit ''/kf/'', Plus notQuoteSpace] @ extTail,
       httpPrefix @ [Lit ''sc'', Plus isDigit, Lit ''.alicdn.com/kf/'', Plus notQuoteSpace] @ extTail,
       httpPrefix @ [Star notQuoteSpace, Lit ''.alicdn.com'', Plus notQuoteSpace] @ extTail,
       httpPrefix @ [Plus notQuoteSpace, Lit ''_'',
                     lits [''960x960'', ''800x800'', ''1200x1200'', ''1600x1600''],
                     Star notQuoteSpace, Lit ''.'', imageExt],
       httpPrefix @ [Plus notQuoteSpace] @ extTail,
       [Lit ''data:image/'', Plus (\<lambda>c. c \<noteq> CHR '';''), Lit '';base64,'', Plus isBase64] ]"

text \<open>The six \<open>excludePatterns\<close>, all with the flag \<open>i\<close>.\<close>

definition tpsRx :: "rx list" where
  "tpsRx = [Lit ''tps-'', Plus isDigit, Lit ''-'', Plus isDigit, Lit ''.'', lits [''png'', ''svg'']]"

definition excludePatterns :: "rx list list" where
  "excludePatterns =
     [ [Lit ''imgextra''], [Lit ''icon''], [Lit ''flag''], [Lit ''logo''],
       [lits [''_20x20'', ''_40x40'', ''_48x48'', ''_60x60'', ''_80x80'']],
       tpsRx ]"

text \<open>\<open>excludePatterns.some(exclude => exclude.test(cleanUrl))\<close>.\<close>

definition isExcluded :: "string \<Rightarrow> bool" where
  "isExcluded u = list_ex (\<lambda>ex. rx_test True ex u) excludePatterns"

text \<open>
  The extractor's state: \<open>imageUrls\<close>, a \<open>Set\<close> (its elements in insertion order), and
  \<open>productImages\<close>, a \<open>Map\<close> from a product id to such a \<open>Set\<close>.
\<close>

record extractor =
  imageUrls :: "string list"
  productImages :: "(string \<times> string list) list"

definition newExtractor :: extractor where
  "newExtractor = \<lparr>imageUrls = [], productImages = []\<rparr>"

text \<open>\<open>Set.prototype.add\<close>.\<close>

definition setAdd :: "string list \<Rightarrow> string \<Rightarrow> string list" where
  "setAdd xs x = (if x \<in> set xs then xs else xs @ [x])"

text \<open>\<open>if (productId)\<close>: \<open>null\<close> and the empty string are falsy.\<close>

definition truthy :: "string option \<Rightarrow> bool" where
  "truthy productId = (case productId of None \<Rightarrow> False | Some p \<Rightarrow> p \<noteq> [])"

text \<open>
  \<open>if (!productImages.has(productId)) productImages.set(productId, new Set());
  productImages.get(productId).add(u)\<close>, on the entries in insertion order.
\<close>

fun mapAdd :: "string \<Rightarrow> string \<Rightarrow> (string \<times> string list) list \<Rightarrow> (string \<times> string list) list" where
  "mapAdd p u [] = [(p, [u])]"
| "mapAdd p u ((k, us) # kvs) =
     (if k = p then (k, setAdd us u) # kvs else (k, us) # mapAdd p u kvs)"

definition addProductImage :: "string option \<Rightarrow> string \<Rightarrow> extractor \<Rightarrow> extractor" where
  "addProductImage productId u st =
     (case productId of
        None \<Rightarrow> st
      | Some p \<Rightarrow> if p = [] then st else st\<lparr>productImages := mapAdd p u (productImages st)\<rparr>)"

text \<open>
  The body of \<open>matches.forEach\<close>: one raw match is cleaned, dropped when it is a
  \<open>data:\<close> URI or matches an exclusion pattern, and otherwise upgraded, added to both
  sets, and \<open>found\<close> is set.
\<close>

definition captureMatch :: "string option \<Rightarrow> bool \<times> extractor \<Rightarrow> string \<Rightarrow> bool \<times> extractor" where
  "captureMatch productId acc match =
     (let c = cleanUrl match
      in if startsWith False c ''data:'' then acc
         else if isExcluded c then acc
         else
           (let u = upgradeUrl c;
                st = snd acc;
                st1 = st\<lparr>imageUrls := setAdd (imageUrls st) u\<rparr>
            in (True, addProductImage productId u st1)))"

text \<open>
  \<open>extractFromResponse(url, responseBody, productId)\<close> on the text \<open>bodyString\<close> (a
  structured body is serialised by \<open>JSON.stringify\<close> first; \<open>url\<close> is not used).
  It returns \<open>found\<close> and the extractor after the call.
\<close>

definition extractFromResponse :: "string \<Rightarrow> string option \<Rightarrow> extractor \<Rightarrow> bool \<times> extractor" where
  "extractFromResponse bodyString productId st =
     foldl (\<lambda>acc pattern. foldl (captureMatch productId) acc (rx_matchAll True pattern bodyString))
       (False, st) imagePatterns"

definition getAllUrls :: "extractor \<Rightarrow> string list" where
  "getAllUrls st = imageUrls st"

definition getProductUrls :: "extractor \<Rightarrow> string \<Rightarrow> string list" where
  "getProductUrls st productId =
     (case map_of (productImages st) productId of None \<Rightarrow> [] | Some us \<Rightarrow> us)"

definition clear :: "extractor \<Rightarrow> extractor" where
  "clear st = st\<lparr>imageUrls := [], productImages := []\<rparr>"

section \<open>AlibabaImageScraper: the response handler\<close>

text \<open>
  The \<open>response\<close> handler of \<open>setupNetworkInterception\<close> has two parts.  The second part,
  first here: a response whose URL ends in an image extension is added to \<open>imageUrls\<close>
  unless one of the handler's own \<open>skipPatterns\<close> matches or the URL is not on the CDN.
\<close>

definition imageUrlRx :: "rx list" where
  "imageUrlRx = [Lit ''.'', imageExt, Alt [[Lit ''?''], [Eos]]]"

definition directLowResRx :: "rx list" where
  "directLowResRx = [lits [''_50x50'', ''_80x80'', ''_100x100'']]"

definition directSkipPatterns :: "rx list list" where
  "directSkipPatterns =
     [ directLowResRx, [Lit ''thumbnail''], [Lit ''imgextra''], [Lit ''icon''],
       [Lit ''flag''], [Lit ''logo''], tpsRx ]"

definition directImageUrl :: "string \<Rightarrow> string" where
  "directImageUrl url =
     (if \<not> rx_test True highResRx url then
        (if rx_test True directLowResRx url then
           (let urlParts = strSplit (CHR ''?'') url;
                baseUrl = hd urlParts;
                queryString = queryStringOf urlParts
            in rx_replaceAll False directLowResRx ''_960x960q80'' baseUrl @ queryString)
         else if \<not> rx_test False sizeRx url then
           (let urlParts = strSplit (CHR ''?'') url;
                baseUrl = hd urlParts;
                queryString = queryStringOf urlParts
            in if rx_test True extEndRx baseUrl \<and> \<not> rx_test False sizeRx baseUrl
               then rx_replaceFirst True extEndRx [T ''_960x960q80.'', G1] baseUrl @ queryString
               else url)
         else url)
      else url)"

definition interceptDirectImage :: "string \<Rightarrow> extractor \<Rightarrow> extractor" where
  "interceptDirectImage url st =
     (if rx_test True imageUrlRx url then
        (let shouldSkip = list_ex (\<lambda>pattern. rx_test True pattern url) directSkipPatterns
         in if \<not> shouldSkip \<and> strIncludes url ''alicdn.com''
            then st\<lparr>imageUrls := setAdd (imageUrls st) (directImageUrl url)\<rparr>
            else st)
      else st)"

text \<open>
  The first part handles JSON and API responses.  \<open>isApiResponse\<close> is its test on the
  content type and the URL.  The product id is taken from the URL by the first of five
  patterns that matches, \<open>/product[_-]?id[=:](\d+)/i\<close>, \<open>/_(\d+)\.html/\<close>,
  \<open>/\/(\d+)\.html/\<close>, \<open>/detailId=(\d+)/i\<close>, \<open>/productId=(\d+)/i\<close>, and from the
  JSON data otherwise.
\<close>

definition isApiResponse :: "string \<Rightarrow> string \<Rightarrow> bool" where
  "isApiResponse contentType url =
     (strIncludes contentType ''application/json'' \<or>
      strIncludes contentType ''text/json'' \<or>
      strIncludes url ''/api/'' \<or>
      strIncludes url ''/ajax/'' \<or>
      strIncludes url ''getProduct'' \<or>
      strIncludes url ''productDetail'' \<or>
      strIncludes url ''/event/app/productDetail/'' \<or>
      strIncludes url ''/event/app/mainAction/'' \<or>
      strIncludes url ''mtop.alibaba'' \<or>
      strIncludes url ''productQuickDetail'' \<or>
      strIncludes url ''descIframe'' \<or>
      strIncludes url ''product-detail/description'')"

definition productIdPatterns :: "(bool \<times> rx list) list" where
  "productIdPatterns =
     [ (True, [Lit ''product'', Opt [Alt [[Lit ''_''], [Lit ''-'']]], Lit ''id'',
               Alt [[Lit ''=''], [Lit '':'']], Mark, Plus isDigit, Mark]),
       (False, [Lit ''_'', Mark, Plus isDigit, Mark, Lit ''.html'']),
       (False, [Lit ''/'', Mark, Plus isDigit, Mark, Lit ''.html'']),
       (True, [Lit ''detailId='', Mark, Plus isDigit, Mark]),
       (True, [Lit ''productId='', Mark, Plus isDigit, Mark]) ]"

text \<open>\<open>urlMatch && urlMatch[1]\<close> for the first pattern that matches.\<close>

fun firstMatch :: "(bool \<times> rx list) list \<Rightarrow> string \<Rightarrow> string option" where
  "firstMatch [] url = None"
| "firstMatch ((ci, r) # ps) url =
     (case rx_find ci r url of
        Some (before, matched, after, g) \<Rightarrow> if g = [] then None else Some g
      | None \<Rightarrow> firstMatch ps url)"

definition productIdOfUrl :: "string \<Rightarrow> string option" where
  "productIdOfUrl url = firstMatch productIdPatterns url"

text \<open>
  What the handler reads of a value returned by \<open>JSON.parse\<close>: whether it is truthy, its
  text for the extractor (the value itself when it is a string, \<open>JSON.stringify\<close> of it
  otherwise), and \<open>String(jsonData.productId || jsonData.id || jsonData.product?.id)\<close>
  when one of the three is truthy.
\<close>

record json =
  jsonTruthy :: bool
  jsonString :: string
  jsonProductId :: "string option"

text \<open>\<open>extractFromJSON(jsonData, productId)\<close>.\<close>

definition extractFromJSON :: "json \<Rightarrow> string option \<Rightarrow> extractor \<Rightarrow> bool \<times> extractor" where
  "extractFromJSON jsonData productId st =
     (if \<not> jsonTruthy jsonData then (False, st)
      else extractFromResponse (jsonString jsonData) productId st)"

text \<open>
  A response as the handler sees it: its URL, \<open>headers()['content-type'] || ''\<close>, and
  the body \<open>response.text()\<close> resolves to (\<open>None\<close> when it throws).  \<open>parseJson\<close> stands
  for \<open>JSON.parse\<close>, \<open>None\<close> when it throws.
\<close>

record response =
  respUrl :: string
  contentType :: string
  respText :: "string option"

text \<open>
  The whole handler.  A body that is not JSON is given to \<open>extractFromResponse\<close> as text
  and the handler returns, without looking at the URL as an image.  An error while the
  body is read is caught and logged, and the handler goes on to the second part, as it
  does after the JSON data has been searched.
\<close>

definition onResponse :: "(string \<Rightarrow> json option) \<Rightarrow> response \<Rightarrow> extractor \<Rightarrow> extractor" where
  "onResponse parseJson response st =
     (let url = respUrl response
      in if isApiResponse (contentType response) url then
           (case respText response of
              None \<Rightarrow> interceptDirectImage url st
            | Some responseBody \<Rightarrow>
                (case parseJson responseBody of
                   None \<Rightarrow> snd (extractFromResponse responseBody None st)
                 | Some jsonData \<Rightarrow>
                     (let productId =
                            (case productIdOfUrl url of
                               Some p \<Rightarrow> Some p
                             | None \<Rightarrow> if jsonTruthy jsonData then jsonProductId jsonData else None)
                      in interceptDirectImage url (snd (extractFromJSON jsonData productId st)))))
         else interceptDirectImage url st)"

section \<open>AlibabaImageScraper: selecting and ranking the URLs\<close>

text \<open>
  The selection step of \<open>scrapeProductPage\<close>.  The filter keeps a CDN URL that no skip
  pattern matches (the same six patterns as \<open>excludePatterns\<close>, written out again in the
  source) and that is high-resolution, or on an \<open>scNN\<close> subdomain, or under
  \<open>alicdn.com/kf/\<close> without two size markers on one line.
\<close>

definition rankSkipPatterns :: "rx list list" where
  "rankSkipPatterns = excludePatterns"

definition scSubdomainRx :: "rx list" where
  "scSubdomainRx = [Lit ''sc'', Plus isDigit, Lit ''.alicdn.com'']"

definition hasHighResRx :: "rx list" where
  "hasHighResRx =
     [Alt [scSubdomainRx, [Lit ''_960x960''], [Lit ''_800x800''], [Lit ''_1200x1200''],
           [Lit ''_1600x1600'']]]"

definition doubleSizeRx :: "rx list" where
  "doubleSizeRx = sizeRx @ [Star (\<lambda>c. c \<noteq> CHR 0x0A \<and> c \<noteq> CHR 0x0D)] @ sizeRx"

definition qualifies :: "string \<Rightarrow> bool" where
  "qualifies url =
     (if \<not> strIncludes url ''alicdn.com'' then False
      else if list_ex (\<lambda>pattern. rx_test True pattern url) rankSkipPatterns then False
      else
        (let hasHighRes = rx_test True hasHighResRx url;
             isKfProduct = (strIncludes url ''alicdn.com/kf/'' \<and> \<not> rx_test False doubleSizeRx url);
             isScSubdomain = rx_test True scSubdomainRx url
         in hasHighRes \<or> isKfProduct \<or> isScSubdomain))"

text \<open>
  The comparator of the sort.  \<open>a.match(/_(\d+)x\d+/)?.[1] || '0'\<close> is the first run of
  digits of the first size marker, \<open>'0'\<close> without one; \<open>parseInt\<close> reads it in base 10.
  \<open>parseInt\<close> returns a double, which is the exact value below \<open>2^53\<close>; the model
  returns the exact value throughout.
\<close>

definition sizeCaptureRx :: "rx list" where
  "sizeCaptureRx = [Lit ''_'', Mark, Plus isDigit, Mark, Lit ''x'', Plus isDigit]"

definition digitVal :: "char \<Rightarrow> nat" where
  "digitVal c = length (takeWhile (\<lambda>d. d \<noteq> c) ''0123456789'')"

definition parseInt :: "string \<Rightarrow> nat" where
  "parseInt s = foldl (\<lambda>n c. 10 * n + digitVal c) 0 (takeWhile isDigit s)"

definition sizeOf :: "string \<Rightarrow> nat" where
  "sizeOf u =
     parseInt (case rx_find False sizeCaptureRx u of
                 None \<Rightarrow> ''0''
               | Some (before, matched, after, g) \<Rightarrow> if g = [] then ''0'' else g)"

definition isKf :: "string \<Rightarrow> bool" where
  "isKf u = strIncludes u ''/kf/''"

definition compareUrls :: "string \<Rightarrow> string \<Rightarrow> int" where
  "compareUrls a b =
     (let sizeDiff = int (sizeOf b) - int (sizeOf a)
      in if sizeDiff = 0
         then (let aIsKf = (if isKf a then 1 else 0); bIsKf = (if isKf b then 1 else 0)
               in bIsKf - aIsKf)
         else sizeDiff)"

text \<open>
  \<open>Array.prototype.sort(cmp)\<close>: for a consistent comparator the language fixes the
  result, the stable sort by \<open>cmp\<close>.  It is written here as an insertion sort that puts
  an element before the first one it does not follow.
\<close>

fun insertBy :: "('a \<Rightarrow> 'a \<Rightarrow> int) \<Rightarrow> 'a \<Rightarrow> 'a list \<Rightarrow> 'a list" where
  "insertBy cmp x [] = [x]"
| "insertBy cmp x (y # ys) = (if cmp x y \<le> 0 then x # y # ys else y # insertBy cmp x ys)"

definition jsSort :: "('a \<Rightarrow> 'a \<Rightarrow> int) \<Rightarrow> 'a list \<Rightarrow> 'a list" where
  "jsSort cmp xs = foldr (insertBy cmp) xs []"

text \<open>\<open>Array.from(new Set(xs))\<close>: the first occurrences, in order.\<close>

definition dedupe :: "string list \<Rightarrow> string list" where
  "dedupe xs = foldl setAdd [] xs"

text \<open>
  \<open>rankUrls\<close> is the filter, the removal of duplicates and the sort;
  \<open>selectImageUrls\<close> is the whole choice: the product's own URLs when there are any,
  else the ranked list, else every CDN URL the fallback pattern does not match.
\<close>

definition rankUrls :: "string list \<Rightarrow> string list" where
  "rankUrls allUrls = jsSort compareUrls (dedupe (filter qualifies allUrls))"

definition fallbackSkipRx :: "rx list" where
  "fallbackSkipRx =
     [lits [''imgextra'', ''icon'', ''flag'', ''logo'', ''_20x20'', ''_40x40'', ''_48x48'',
            ''_60x60'', ''_80x80'']]"

definition selectImageUrls :: "extractor \<Rightarrow> string \<Rightarrow> string list" where
  "selectImageUrls st productId =
     (if productId \<noteq> ''unknown'' \<and> getProductUrls st productId \<noteq> []
      then getProductUrls st productId
      else
        (let allUrls = imageUrls st;
             ranked = rankUrls allUrls
         in if ranked = []
            then filter (\<lambda>url. strIncludes url ''alicdn.com'' \<and> \<not> rx_test True fallbackSkipRx url) allUrls
            else ranked))"

section \<open>ImageDownloader: the file extension\<close>

text \<open>
  \<open>pathname.replace(/_\d+x\d+q?\d*\.(jpg|jpeg|png|webp|gif)$/i, '.$1')\<close>, then
  \<open>path.extname(pathname) || '.jpg'\<close>.
\<close>

definition sizeSuffixRx :: "rx list" where
  "sizeSuffixRx = [Lit ''_'', Plus isDigit, Lit ''x'', Plus isDigit, Opt [Lit ''q''], Star isDigit,
                   Lit ''.'', Mark, imageExt, Mark, Eos]"

text \<open>
  Node's \<open>path.extname\<close> on POSIX paths, which is a library function and not part of the
  repository, after its documentation: the extension is the text from the last \<open>.\<close> of
  the last path segment (trailing slashes set aside) to the end of that segment; it is
  empty when the segment has no \<open>.\<close>, when its only \<open>.\<close> is its first character, and
  when the segment is \<open>..\<close>.  \<open>rb\<close> is the last segment reversed.
\<close>

definition path_extname :: "string \<Rightarrow> string" where
  "path_extname p =
     (let rb = takeWhile (\<lambda>c. c \<noteq> CHR ''/'') (dropWhile (\<lambda>c. c = CHR ''/'') (rev p));
          e = takeWhile (\<lambda>c. c \<noteq> CHR ''.'') rb;
          stem = drop (Suc (length e)) rb
      in if CHR ''.'' \<notin> set rb then []
         else if stem = [] then []
         else if rb = ''..'' then []
         else CHR ''.'' # rev e)"

definition deriveExtension :: "string \<Rightarrow> string" where
  "deriveExtension pathname =
     (let pathname1 = rx_replaceFirst True sizeSuffixRx [T ''.'', G1] pathname;
          ext = path_extname pathname1
      in if ext = [] then ''.jpg'' else ext)"

section \<open>ImageDownloader: \<open>downloadImage\<close> and \<open>downloadAll\<close>\<close>

text \<open>
  \<open>sanitizeFileName\<close> and the decimal form of the index in a template string.
\<close>

definition showNat_digit :: "nat \<Rightarrow> char" where
  "showNat_digit d = ''0123456789'' ! d"

fun showNat :: "nat \<Rightarrow> string" where
  "showNat n = (if n < 10 then [showNat_digit n] else showNat (n div 10) @ [showNat_digit (n mod 10)])"

definition isBadFileChar :: "char \<Rightarrow> bool" where
  "isBadFileChar c = (c \<in> set [CHR ''<'', CHR ''>'', CHR '':'', CHR 0x22, CHR ''/'', CHR 0x5C, CHR ''|'', CHR ''?'', CHR ''*''])"

definition sanitizeFileName :: "string \<Rightarrow> string" where
  "sanitizeFileName fileName =
     (if fileName = [] then ''unnamed''
      else trim (take 200
             (rx_replaceAll False [Plus (\<lambda>c. c = CHR ''_'')] ''_''
               (rx_replaceAll False [Plus isSpace] ''_''
                 (map (\<lambda>c. if isBadFileChar c then CHR ''_'' else c) fileName)))))"

text \<open>
  Node's \<open>path.join\<close> on POSIX paths with two arguments, a library function, after its
  documentation: the non-empty arguments are joined with \<open>/\<close> and the result is
  normalised.  Normalising drops the empty segments and the segments \<open>.\<close>, lets a
  segment \<open>..\<close> remove the segment before it (at the front of a relative path it is
  kept, at the root it is dropped), keeps a leading and a trailing \<open>/\<close>, and gives
  \<open>.\<close> for the empty path.  \<open>res\<close> is the list of the segments kept so far.
\<close>

fun joinSegs :: "string list \<Rightarrow> string" where
  "joinSegs [] = []"
| "joinSegs [s] = s"
| "joinSegs (s # t # ss) = s @ ''/'' @ joinSegs (t # ss)"

fun normalizeSegs :: "bool \<Rightarrow> string list \<Rightarrow> string list \<Rightarrow> string list" where
  "normalizeSegs allowAboveRoot res [] = res"
| "normalizeSegs allowAboveRoot res (seg # segs) =
     (if seg = [] \<or> seg = ''.'' then normalizeSegs allowAboveRoot res segs
      else if seg = ''..'' then
        (if res \<noteq> [] \<and> last res \<noteq> ''..'' then normalizeSegs allowAboveRoot (butlast res) segs
         else if allowAboveRoot then normalizeSegs allowAboveRoot (res @ [''..'']) segs
         else normalizeSegs allowAboveRoot res segs)
      else normalizeSegs allowAboveRoot (res @ [seg]) segs)"

definition path_normalize :: "string \<Rightarrow> string" where
  "path_normalize p =
     (if p = [] then ''.''
      else
        (let isAbsolute = (hd p = CHR ''/'');
             trailingSeparator = (last p = CHR ''/'');
             body = joinSegs (normalizeSegs (\<not> isAbsolute) [] (strSplit (CHR ''/'') p))
         in if body = [] then (if isAbsolute then ''/'' else if trailingSeparator then ''./'' else ''.'')
            else (if isAbsolute then ''/'' else []) @ body @ (if trailingSeparator then ''/'' else [])))"

definition pathJoin :: "string \<Rightarrow> string \<Rightarrow> string" where
  "pathJoin a b =
     (let joined = joinSegs (filter (\<lambda>s. s \<noteq> []) [a, b])
      in if joined = [] then ''.'' else path_normalize joined)"

text \<open>
  The promise at the end of \<open>downloadImage\<close>.  The response stream is piped into the file
  writer, and the two streams deliver events to the three handlers.
  \<open>fs.createWriteStream\<close> returns at once and opens the file in the background: the
  file comes into existence when that open completes (the event \<open>Opened\<close>), and a writer
  destroyed in the meantime still lets the open complete before it closes the file.  A
  writer error that arrives while the open is pending is the open failing, after which
  it cannot complete.  \<open>onDisk\<close> says whether \<open>filePath\<close> exists, \<open>openPending\<close>
  whether the open is still under way, \<open>writerLive\<close> whether the writer can still write:
  a chunk is written only by a live writer whose file is open, and a writer that has
  failed or was destroyed is not live.  A promise settles once: \<open>resolve\<close> and \<open>reject\<close>
  change nothing afterwards.
\<close>

datatype stream_event = Opened | Chunk | Finish | WriterError string | ResponseError string

datatype outcome = Pending | Resolved string | Rejected string

record transfer =
  onDisk :: bool
  openPending :: bool
  writerLive :: bool
  errorOccurred :: bool
  settled :: outcome

definition resolve :: "string \<Rightarrow> transfer \<Rightarrow> transfer" where
  "resolve v t = (if settled t = Pending then t\<lparr>settled := Resolved v\<rparr> else t)"

definition reject :: "string \<Rightarrow> transfer \<Rightarrow> transfer" where
  "reject err t = (if settled t = Pending then t\<lparr>settled := Rejected err\<rparr> else t)"

definition unlinkIfExists :: "transfer \<Rightarrow> transfer" where
  "unlinkIfExists t = (if onDisk t then t\<lparr>onDisk := False\<rparr> else t)"

definition destroyWriter :: "transfer \<Rightarrow> transfer" where
  "destroyWriter t = t\<lparr>writerLive := False\<rparr>"

definition onWriterFinish :: "string \<Rightarrow> transfer \<Rightarrow> transfer" where
  "onWriterFinish filePath t = (if \<not> errorOccurred t then resolve filePath t else t)"

definition onWriterError :: "string \<Rightarrow> transfer \<Rightarrow> transfer" where
  "onWriterError err t = reject err (unlinkIfExists (t\<lparr>errorOccurred := True\<rparr>))"

definition onResponseError :: "string \<Rightarrow> transfer \<Rightarrow> transfer" where
  "onResponseError err t = reject err (unlinkIfExists (destroyWriter (t\<lparr>errorOccurred := True\<rparr>)))"

fun onEvent :: "string \<Rightarrow> transfer \<Rightarrow> stream_event \<Rightarrow> transfer" where
  "onEvent filePath t Opened =
     (if openPending t then t\<lparr>openPending := False, onDisk := True\<rparr> else t)"
| "onEvent filePath t Chunk =
     (if writerLive t \<and> \<not> openPending t then t\<lparr>onDisk := True\<rparr> else t)"
| "onEvent filePath t Finish = onWriterFinish filePath t"
| "onEvent filePath t (WriterError err) =
     onWriterError err (t\<lparr>writerLive := False, openPending := False\<rparr>)"
| "onEvent filePath t (ResponseError err) = onResponseError err t"

definition openTransfer :: transfer where
  "openTransfer = \<lparr>onDisk = False, openPending = True, writerLive = True,
                    errorOccurred = False, settled = Pending\<rparr>"

definition runTransfer :: "string \<Rightarrow> stream_event list \<Rightarrow> transfer" where
  "runTransfer filePath events = foldl (onEvent filePath) openTransfer events"

text \<open>
  The world \<open>downloadImage\<close> acts on: the paths that exist, and two logs, the calls of
  \<open>downloadImage\<close> (URL and index) and the requests handed to \<open>axios\<close>.  The two
  collaborators are the URL parser (\<open>new URL(url).pathname\<close>, \<open>None\<close> when it throws)
  and the HTTP client (the error it throws, or the events of the transfer).
  \<open>downloadImage\<close> returns how its promise ends: \<open>Pending\<close> is a promise that never
  settles.
\<close>

record world =
  files :: "string list"
  attempted :: "(string \<times> nat) list"
  requests :: "string list"

record collaborators =
  parseUrl :: "string \<Rightarrow> string option"
  httpGet :: "string \<Rightarrow> string + stream_event list"

definition mkdirp :: "string \<Rightarrow> world \<Rightarrow> world" where
  "mkdirp d w = (if d \<in> set (files w) then w else w\<lparr>files := files w @ [d]\<rparr>)"

definition productDirOf :: "string \<Rightarrow> string option \<Rightarrow> string" where
  "productDirOf downloadDir productId =
     (if truthy productId then pathJoin downloadDir (sanitizeFileName (the productId))
      else pathJoin downloadDir ''unknown'')"

definition fileNameOf :: "string option \<Rightarrow> nat \<Rightarrow> string \<Rightarrow> string" where
  "fileNameOf productName index extension =
     (if truthy productName then sanitizeFileName (the productName) @ ''_'' @ showNat index @ extension
      else ''image_'' @ showNat index @ extension)"

definition filePathOf :: "string \<Rightarrow> string option \<Rightarrow> string option \<Rightarrow> nat \<Rightarrow> string \<Rightarrow> string" where
  "filePathOf downloadDir productId productName index pathname =
     pathJoin (productDirOf downloadDir productId)
       (fileNameOf productName index (deriveExtension pathname))"

definition setFile :: "string \<Rightarrow> bool \<Rightarrow> world \<Rightarrow> world" where
  "setFile p present w =
     (if present then (if p \<in> set (files w) then w else w\<lparr>files := files w @ [p]\<rparr>)
      else w\<lparr>files := filter (\<lambda>f. f \<noteq> p) (files w)\<rparr>)"

definition downloadImage ::
  "collaborators \<Rightarrow> string \<Rightarrow> string \<Rightarrow> string option \<Rightarrow> string option \<Rightarrow> nat \<Rightarrow> world
     \<Rightarrow> outcome \<times> world" where
  "downloadImage env downloadDir url productId productName index w0 =
     (let w = mkdirp (productDirOf downloadDir productId) (w0\<lparr>attempted := attempted w0 @ [(url, index)]\<rparr>)
      in case parseUrl env url of
           None \<Rightarrow> (Rejected (''Invalid URL: '' @ url), w)
         | Some pathname \<Rightarrow>
             (let filePath = filePathOf downloadDir productId productName index pathname
              in if filePath \<in> set (files w) then (Resolved filePath, w)
                 else
                   (let w1 = w\<lparr>requests := requests w @ [url]\<rparr>
                    in case httpGet env url of
                         Inl err \<Rightarrow> (Rejected err, w1)
                       | Inr events \<Rightarrow>
                           (let t = runTransfer filePath events
                            in (settled t, setFile filePath (onDisk t) w1)))))"




section \<open>AlibabaImageScraper: the retry of \<open>scrapeProductPage\<close>\<close>

text \<open>
  One attempt is the body of the \<open>try\<close> block: the navigation (\<open>networkidle\<close> first,
  \<open>domcontentloaded\<close> when that throws) and everything after it, which either throws or
  returns the result object.  The page's behaviour is given per attempt, numbered by
  \<open>retryCount\<close>.
\<close>

record config =
  retryAttempts :: nat
  retryDelay :: nat

record 'r page =
  gotoNetworkIdle :: "nat \<Rightarrow> string option"
  gotoDomContentLoaded :: "nat \<Rightarrow> string option"
  afterNavigation :: "nat \<Rightarrow> string + 'r"

definition attempt :: "'r page \<Rightarrow> nat \<Rightarrow> string + 'r" where
  "attempt page retryCount =
     (case gotoNetworkIdle page retryCount of
        None \<Rightarrow> afterNavigation page retryCount
      | Some timeout \<Rightarrow>
          (case gotoDomContentLoaded page retryCount of
             None \<Rightarrow> afterNavigation page retryCount
           | Some err \<Rightarrow> Inl err))"

text \<open>
  \<open>randomDelay(min, max)\<close> waits \<open>Math.floor(Math.random() * (max - min + 1)) + min\<close>
  milliseconds.  \<open>draw\<close> stands for the random number: every delay from \<open>min\<close> to
  \<open>max\<close> can come out and no other.
\<close>

definition randomDelay :: "nat \<Rightarrow> nat \<Rightarrow> nat \<Rightarrow> nat" where
  "randomDelay minMs maxMs draw = draw mod (maxMs - minMs + 1) + minMs"

text \<open>
  \<open>scrapeProductPage(productUrl, retryCount)\<close> with its \<open>catch\<close> block.  It returns what
  the call returns or throws, and the trace of the attempts (numbered as the log numbers
  them, from 1) and of the delays between them.
\<close>

datatype event = Attempt nat | Backoff nat

function scrapeProductPage ::
  "config \<Rightarrow> 'r page \<Rightarrow> (nat \<Rightarrow> nat) \<Rightarrow> nat \<Rightarrow> event list \<times> (string + 'r)" where
  "scrapeProductPage cfg page draws retryCount =
     (case attempt page retryCount of
        Inr result \<Rightarrow> ([Attempt (retryCount + 1)], Inr result)
      | Inl error \<Rightarrow>
          if retryCount < retryAttempts cfg then
            (let delay = randomDelay (retryDelay cfg) (retryDelay cfg * 2) (draws retryCount);
                 (trace, r) = scrapeProductPage cfg page draws (retryCount + 1)
             in (Attempt (retryCount + 1) # Backoff delay # trace, r))
          else ([Attempt (retryCount + 1)], Inl error))"
  by pat_completeness auto
termination
  by (relation "measure (\<lambda>(cfg, page, draws, retryCount). Suc (retryAttempts cfg) - retryCount)") auto

declare scrapeProductPage.simps [simp del]

section \<open>Predicates of the statements\<close>

text \<open>
  Every raw match of a call, in the order the call visits them, and the test a match must
  pass to be captured: not a \<open>data:\<close> URI and not excluded.
\<close>

definition allMatches :: "string \<Rightarrow> string list" where
  "allMatches bodyString =
     concat (map (\<lambda>pattern. rx_matchAll True pattern bodyString) imagePatterns)"

definition survives :: "string \<Rightarrow> bool" where
  "survives match =
     (\<not> startsWith False (cleanUrl match) ''data:'' \<and> \<not> isExcluded (cleanUrl match))"

text \<open>The query component of a URL: what follows its first \<open>?\<close>.\<close>

definition queryOf :: "string \<Rightarrow> string" where
  "queryOf u = tl (dropWhile (\<lambda>c. c \<noteq> CHR ''?'') u)"


definition isStreamError :: "stream_event \<Rightarrow> bool" where
  "isStreamError ev = (case ev of WriterError e \<Rightarrow> True | ResponseError e \<Rightarrow> True | _ \<Rightarrow> False)"

text \<open>
  The state a stream error leaves once the open is no longer pending: no file, no live
  writer, nothing that could still create the file.
\<close>

definition cleaned :: "transfer \<Rightarrow> bool" where
  "cleaned t = (\<not> onDisk t \<and> \<not> openPending t \<and> \<not> writerLive t \<and> errorOccurred t)"

text \<open>A path segment that normalisation leaves alone.\<close>

definition normalSeg :: "string \<Rightarrow> bool" where
  "normalSeg n = (CHR ''/'' \<notin> set n \<and> n \<noteq> [] \<and> n \<noteq> ''.'' \<and> n \<noteq> ''..'')"

definition isBackoff :: "event \<Rightarrow> bool" where
  "isBackoff ev = (case ev of Backoff d \<Rightarrow> True | Attempt n \<Rightarrow> False)"

text \<open>The order the comparator induces: larger size first, then \<open>/kf/\<close> first.\<close>

definition rankBefore :: "string \<Rightarrow> string \<Rightarrow> bool" where
  "rankBefore a b = (sizeOf b < sizeOf a \<or> (sizeOf a = sizeOf b \<and> (isKf b \<longrightarrow> isKf a)))"

text \<open>Every character a pattern can consume satisfies \<open>P\<close>.\<close>

fun rxOk :: "(char \<Rightarrow> bool) \<Rightarrow> rx \<Rightarrow> bool" where
  "rxOk P (Lit l) = (\<forall>c. (\<exists>d \<in> set l. lower c = lower d) \<longrightarrow> P c)"
| "rxOk P (Plus p) = (\<forall>c. p c \<longrightarrow> P c)"
| "rxOk P (Star p) = (\<forall>c. p c \<longrightarrow> P c)"
| "rxOk P (Opt g) = list_all (rxOk P) g"
| "rxOk P (Alt as) = list_all (list_all (rxOk P)) as"
| "rxOk P Mark = True"
| "rxOk P Eos = True"

section \<open>Facts about strings and patterns\<close>

lemma startsWith_append: "startsWith ci (p @ t) p"
  by (induction p) auto

lemma startsWith_False_iff: "startsWith False s p \<longleftrightarrow> take (length p) s = p"
  by (induction False s p rule: startsWith.induct) auto

lemma strIncludes_iff: "strIncludes s sub \<longleftrightarrow> (\<exists>a b. s = a @ sub @ b)"
proof (induction s)
  case Nil
  then show ?case by auto
next
  case (Cons c cs)
  show ?case
  proof
    assume "strIncludes (c # cs) sub"
    then consider "startsWith False (c # cs) sub" | "strIncludes cs sub" by auto
    then show "\<exists>a b. c # cs = a @ sub @ b"
    proof cases
      case 1
      then have "take (length sub) (c # cs) = sub" by (simp add: startsWith_False_iff)
      then have "c # cs = [] @ sub @ drop (length sub) (c # cs)"
        by (metis append_Nil append_take_drop_id)
      then show ?thesis by blast
    next
      case 2
      then obtain a b where "cs = a @ sub @ b" using Cons.IH by blast
      then have "c # cs = (c # a) @ sub @ b" by simp
      then show ?thesis by blast
    qed
  next
    assume "\<exists>a b. c # cs = a @ sub @ b"
    then obtain a b where ab: "c # cs = a @ sub @ b" by blast
    show "strIncludes (c # cs) sub"
    proof (cases a)
      case Nil
      then have "startsWith False (c # cs) sub"
        using ab startsWith_append[of False sub b] by simp
      then show ?thesis by simp
    next
      case (Cons a0 as)
      then have "cs = as @ sub @ b" using ab by simp
      then show ?thesis using Cons.IH by auto
    qed
  qed
qed

lemma rx_match_lits:
  "rx_match ci (lits ls # rs) s ms = None \<longleftrightarrow>
     (\<forall>l \<in> set ls. \<not> startsWith ci s l \<or> rx_match ci rs (drop (length l) s) ms = None)"
  unfolding lits_def by (induction ls) (auto split: option.splits)

text \<open>A test against an alternation of literals is a substring test for one of them.\<close>

lemma rx_test_lits:
  "rx_test False [lits ls] s \<longleftrightarrow> (\<exists>l \<in> set ls. strIncludes s l)"
  unfolding rx_test_def
proof (induction s)
  case Nil
  have "\<And>l. startsWith False [] l \<longleftrightarrow> l = []" by (case_tac l) auto
  then show ?case using rx_match_lits[of False ls "[]" "[]" "[]"]
    by (auto split: option.splits)
next
  case (Cons c cs)
  then show ?case using rx_match_lits[of False ls "[]" "c # cs" "[]"]
    by (auto split: option.splits)
qed

lemma startsWith_split:
  "startsWith ci s l \<Longrightarrow>
     s = take (length l) s @ drop (length l) s \<and> length l \<le> length s
     \<and> (\<forall>c \<in> set (take (length l) s). \<exists>d \<in> set l. lower c = lower d)"
  by (induction ci s l rule: startsWith.induct) (auto split: if_splits)

lemma rx_match_consumes:
  "list_all (rxOk P) rs \<Longrightarrow> rx_match ci rs s ms = Some (rest, ms') \<Longrightarrow>
     \<exists>pre. s = pre @ rest \<and> list_all P pre"
proof (induction ci rs s ms arbitrary: rest ms' rule: rx_match.induct)
  case (1 ci s ms)
  then show ?case by simp
next
  case (2 ci l rs s ms)
  from "2.prems" have sw: "startsWith ci s l" and m: "rx_match ci rs (drop (length l) s) ms = Some (rest, ms')"
    by (auto split: if_splits)
  from "2.IH"[OF sw _ m] "2.prems"(1) obtain pre where pre: "drop (length l) s = pre @ rest" "list_all P pre"
    by auto
  from startsWith_split[OF sw] "2.prems"(1)
  have "list_all P (take (length l) s)" by (auto simp: list_all_iff)
  moreover have "s = (take (length l) s @ pre) @ rest"
    using pre(1) by (metis append_assoc append_take_drop_id)
  ultimately show ?case using pre(2) by (metis list_all_append)
next
  case (3 ci p rs s ms)
  then obtain c cs where s: "s = c # cs" and pc: "p c" and m: "rx_match ci (Star p # rs) cs ms = Some (rest, ms')"
    by (auto split: list.splits if_splits)
  from "3.IH"[OF s pc _ m] "3.prems"(1) obtain pre where "cs = pre @ rest" "list_all P pre" by auto
  then have "s = (c # pre) @ rest" "list_all P (c # pre)" using s pc "3.prems"(1) by auto
  then show ?case by blast
next
  case (4 ci p rs s ms)
  show ?case
  proof (cases s)
    case Nil
    then show ?thesis using 4 by auto
  next
    case (Cons c cs)
    show ?thesis
    proof (cases "p c")
      case True
      show ?thesis
      proof (cases "rx_match ci (Star p # rs) cs ms")
        case None
        then have "rx_match ci rs s ms = Some (rest, ms')" using "4.prems"(2) Cons True by simp
        then show ?thesis using "4.IH"(3)[OF Cons True None] "4.prems"(1) by auto
      next
        case (Some r)
        then have "rx_match ci (Star p # rs) cs ms = Some (rest, ms')" using "4.prems"(2) Cons True by simp
        from "4.IH"(2)[OF Cons True "4.prems"(1) this] obtain pre where "cs = pre @ rest" "list_all P pre" by auto
        then have "s = (c # pre) @ rest" "list_all P (c # pre)" using Cons True "4.prems"(1) by auto
        then show ?thesis by blast
      qed
    next
      case False
      then have "rx_match ci rs s ms = Some (rest, ms')" using "4.prems"(2) Cons by simp
      then show ?thesis using "4.IH"(4)[OF Cons False] "4.prems"(1) by auto
    qed
  qed
next
  case (5 ci g rs s ms)
  show ?case
  proof (cases "rx_match ci (g @ rs) s ms")
    case None
    then show ?thesis using 5 by auto
  next
    case (Some r)
    then have "rx_match ci (g @ rs) s ms = Some (rest, ms')" using "5.prems"(2) by simp
    moreover have "list_all (rxOk P) (g @ rs)" using "5.prems"(1) by simp
    ultimately show ?thesis using "5.IH"(1) by blast
  qed
next
  case (6 ci rs s ms)
  then show ?case by simp
next
  case (7 ci a as rs s ms)
  show ?case
  proof (cases "rx_match ci (a @ rs) s ms")
    case None
    then show ?thesis using 7 by auto
  next
    case (Some r)
    then have "rx_match ci (a @ rs) s ms = Some (rest, ms')" using "7.prems"(2) by simp
    moreover have "list_all (rxOk P) (a @ rs)" using "7.prems"(1) by simp
    ultimately show ?thesis using "7.IH"(1) by blast
  qed
next
  case (8 ci rs s ms)
  then show ?case by auto
next
  case (9 ci rs s ms)
  then show ?case by (auto split: if_splits)
qed






text \<open>What a match, a search and a replacement are made of.\<close>

lemma rx_match_suffix:
  assumes "rx_match ci rs s ms = Some (rest, ms')"
  shows "\<exists>pre. s = pre @ rest"
proof -
  have "list_all (rxOk (\<lambda>c. True)) rs"
  proof -
    have "rxOk (\<lambda>c. True) r" for r
      by (induction r) (auto simp: list_all_iff)
    then show ?thesis by (simp add: list_all_iff)
  qed
  from rx_match_consumes[OF this assms] show ?thesis by blast
qed

lemma set_group1: "set (group1 s ms) \<subseteq> set s"
proof -
  have "set (take n (drop k s)) \<subseteq> set s" for n k
    by (meson set_drop_subset set_take_subset subset_trans)
  then show ?thesis
    by (auto simp: group1_def split: list.splits)
qed

lemma rx_find_parts:
  "rx_find ci r s = Some (before, matched, after, g) \<Longrightarrow>
     s = before @ matched @ after \<and> set g \<subseteq> set s"
proof (induction s arbitrary: before matched after g)
  case Nil
  then show ?case using set_group1[of "[]"] by (auto split: option.splits)
next
  case (Cons c cs)
  show ?case
  proof (cases "rx_match ci r (c # cs) []")
    case None
    then obtain b' where b': "rx_find ci r cs = Some (b', matched, after, g)" "before = c # b'"
      using Cons.prems by (auto split: option.splits)
    from Cons.IH[OF b'(1)] b'(2) show ?thesis by auto
  next
    case (Some r')
    obtain rest ms where r': "r' = (rest, ms)" by (cases r')
    from rx_match_suffix[OF Some[unfolded r']] obtain pre where pre: "c # cs = pre @ rest" by blast
    have "before = []" "matched = take (Suc (length cs) - length rest) (c # cs)" "after = rest"
      "g = group1 (c # cs) ms"
      using Cons.prems Some r' by auto
    moreover have "take (Suc (length cs) - length rest) (c # cs) = pre"
      using pre by (metis append_eq_conv_conj diff_add_inverse2 length_Cons length_append)
    ultimately show ?thesis using pre set_group1[of "c # cs" ms] by auto
  qed
qed

lemma list_all_rx_replaceAll_from:
  "list_all P repl \<Longrightarrow> list_all P s \<Longrightarrow> list_all P (rx_replaceAll_from ci r repl k s)"
proof (induction s arbitrary: k)
  case Nil
  then show ?case by (cases "rx_match ci r [] []") auto
next
  case (Cons c cs)
  then have cs: "list_all P cs" and c: "P c" by auto
  show ?case
  proof (cases "0 < k")
    case True
    then show ?thesis using Cons.IH[OF Cons.prems(1) cs, of "k - 1"] by auto
  next
    case False
    show ?thesis
    proof (cases "rx_match ci r (c # cs) []")
      case None
      then show ?thesis using False c Cons.IH[OF Cons.prems(1) cs, of 0] by auto
    next
      case (Some y)
      obtain rest ms where y: "y = (rest, ms)" by (cases y)
      show ?thesis
        using False Some y c Cons.prems(1) Cons.IH[OF Cons.prems(1) cs, of 0]
          Cons.IH[OF Cons.prems(1) cs, of "Suc (length cs) - length rest - 1"]
        by (auto simp: Let_def)
    qed
  qed
qed

lemma set_rx_replaceAll: "set (rx_replaceAll ci r repl s) \<subseteq> set repl \<union> set s"
  using list_all_rx_replaceAll_from[of "\<lambda>c. c \<in> set repl \<union> set s" repl s ci r 0]
  by (auto simp: rx_replaceAll_def list_all_iff)

lemma set_expand: "set (expand tmpl g) \<subseteq> (\<Union>p \<in> set tmpl. case p of T t \<Rightarrow> set t | G1 \<Rightarrow> {}) \<union> set g"
  by (induction tmpl g rule: expand.induct) auto

lemma set_rx_replaceFirst_ext:
  "set (rx_replaceFirst ci r [T ''_960x960q80.'', G1] s) \<subseteq> set ''_960x960q80.'' \<union> set s"
proof (cases "rx_find ci r s")
  case None
  then show ?thesis by (auto simp: rx_replaceFirst_def)
next
  case (Some x)
  obtain b m a g where x: "x = (b, m, a, g)" by (cases x)
  from rx_find_parts[OF Some[unfolded x]] have "s = b @ m @ a" "set g \<subseteq> set s" by auto
  then have "set b \<subseteq> set s" "set a \<subseteq> set s" "set g \<subseteq> set s" by auto
  then show ?thesis using Some x by (auto simp: rx_replaceFirst_def)
qed

text \<open>Splitting at a separator that occurs at most once.\<close>

lemma strSplit_nonempty: "strSplit sep s \<noteq> []"
  by (induction s) (auto simp: Let_def)

lemma strSplit_no_sep: "sep \<notin> set s \<Longrightarrow> strSplit sep s = [s]"
  by (induction s) (auto simp: Let_def)

lemma strSplit_one_sep:
  "sep \<notin> set a \<Longrightarrow> sep \<notin> set b \<Longrightarrow> strSplit sep (a @ sep # b) = [a, b]"
  by (induction a) (auto simp: Let_def strSplit_no_sep)

lemma queryOf_append: "CHR ''?'' \<notin> set a \<Longrightarrow> queryOf (a @ ''?'' @ q) = q"
  by (induction a) (auto simp: queryOf_def)

text \<open>
  Substrings across a separator, and what a global replacement does to a subject with and
  without a match.
\<close>

lemma strIncludes_split:
  assumes "strIncludes (a @ sep # b) l" "sep \<notin> set l"
  shows "strIncludes a l \<or> strIncludes b l"
proof -
  from assms(1) obtain x y where xy: "a @ sep # b = x @ l @ y"
    unfolding strIncludes_iff by blast
  then consider us where "a = x @ us" "us @ sep # b = l @ y"
    | us where "a @ us = x" "sep # b = us @ l @ y"
    by (auto simp: append_eq_append_conv2)
  then show ?thesis
  proof cases
    case 1
    from 1(2) consider vs where "us = l @ vs" "vs @ sep # b = y"
      | vs where "us @ vs = l" "sep # b = vs @ y"
      by (auto simp: append_eq_append_conv2)
    then show ?thesis
    proof cases
      case 1
      then have "a = x @ l @ vs" using \<open>a = x @ us\<close> by simp
      then show ?thesis unfolding strIncludes_iff by blast
    next
      case 2
      show ?thesis
      proof (cases vs)
        case Nil
        then have "a = x @ l @ []" using 2 \<open>a = x @ us\<close> by simp
        then show ?thesis unfolding strIncludes_iff by blast
      next
        case (Cons v vs')
        then have "sep \<in> set l" using 2 by auto
        then show ?thesis using assms(2) by simp
      qed
    qed
  next
    case 2
    show ?thesis
    proof (cases us)
      case Nil
      then have "sep # b = l @ y" using 2 by simp
      then have "l = []" using assms(2) by (cases l) auto
      then have "a = a @ l @ []" by simp
      then show ?thesis unfolding strIncludes_iff by blast
    next
      case (Cons u us')
      then have "b = us' @ l @ y" using 2 by simp
      then show ?thesis unfolding strIncludes_iff by blast
    qed
  qed
qed

lemma strIncludes_appendI: "strIncludes s l \<Longrightarrow> strIncludes (p @ s @ t) l"
  unfolding strIncludes_iff by (metis append.assoc)

lemma strIncludes_trans: "strIncludes s m \<Longrightarrow> strIncludes m l \<Longrightarrow> strIncludes s l"
  unfolding strIncludes_iff by (metis append.assoc)

lemma rx_find_None_iff: "rx_find ci r s = None \<longleftrightarrow> \<not> rx_test ci r s"
  unfolding rx_test_def by blast

lemma rx_test_Cons:
  "rx_test ci r (c # cs) \<longleftrightarrow> rx_match ci r (c # cs) [] \<noteq> None \<or> rx_test ci r cs"
  by (auto simp: rx_test_def split: option.splits)

lemma replaceAll_includes_repl:
  assumes ne: "rx_match ci r [] [] = None"
  shows "rx_test ci r s \<Longrightarrow> strIncludes (rx_replaceAll_from ci r repl 0 s) repl"
proof (induction s)
  case Nil
  then show ?case using ne by (simp add: rx_test_def)
next
  case (Cons c cs)
  show ?case
  proof (cases "rx_match ci r (c # cs) []")
    case None
    then have "rx_test ci r cs" using Cons.prems by (simp add: rx_test_Cons)
    then have "strIncludes (rx_replaceAll_from ci r repl 0 cs) repl" by (rule Cons.IH)
    then have "strIncludes ([c] @ rx_replaceAll_from ci r repl 0 cs @ []) repl"
      by (rule strIncludes_appendI)
    then show ?thesis using None by simp
  next
    case (Some y)
    obtain rest ms where y: "y = (rest, ms)" by (cases y)
    have "\<exists>t. rx_replaceAll_from ci r repl 0 (c # cs) = repl @ t"
      using Some y by (auto simp: Let_def)
    then show ?thesis unfolding strIncludes_iff by (metis append_Nil)
  qed
qed

lemma replaceAll_no_match:
  "\<not> rx_test ci r s \<Longrightarrow> rx_replaceAll_from ci r repl 0 s = s"
proof (induction s)
  case Nil
  then show ?case by (cases "rx_match ci r [] []") (auto simp: rx_test_def)
next
  case (Cons c cs)
  then have "rx_match ci r (c # cs) [] = None" "\<not> rx_test ci r cs"
    unfolding rx_test_Cons by blast+
  then show ?case using Cons.IH by simp
qed

lemma lits_no_empty_match:
  "[] \<notin> set ls \<Longrightarrow> rx_match ci [lits ls] [] [] = None"
proof -
  assume a: "[] \<notin> set ls"
  have "\<not> startsWith ci [] l" if "l \<in> set ls" for l
    by (cases l) (use that a in auto)
  then show ?thesis unfolding rx_match_lits by blast
qed

lemma at_most_one_sep:
  assumes "length (filter (\<lambda>c. c = sep) u) \<le> 1"
  shows "sep \<notin> set u \<or> (\<exists>a b. u = a @ sep # b \<and> sep \<notin> set a \<and> sep \<notin> set b)"
proof (cases "sep \<in> set u")
  case False
  then show ?thesis by simp
next
  case True
  then obtain a b where ab: "u = a @ sep # b" "sep \<notin> set a"
    by (meson split_list_first)
  have "filter (\<lambda>c. c = sep) a = []" using ab(2) by (induction a) auto
  then have "length (filter (\<lambda>c. c = sep) u) = Suc (length (filter (\<lambda>c. c = sep) b))"
    using ab(1) by simp
  then have "filter (\<lambda>c. c = sep) b = []" using assms by simp
  then have "sep \<notin> set b" by (induction b) (auto split: if_splits)
  then show ?thesis using ab by blast
qed

section \<open>Canonicalisation: high-resolution URLs, idempotence, query strings\<close>

text \<open>
  C4.  A URL that already contains one of the high-resolution markers \<open>_960x960\<close>,
  \<open>_800x800\<close>, \<open>_1200x1200\<close>, \<open>_1600x1600\<close> is returned unchanged by the
  canonicalisation, whatever its query string holds.  A URL is a token as the matching
  patterns deliver it: it has no quote character and no surrounding whitespace (so
  cleaning leaves it alone) and it is not a \<open>data:\<close> URI.
\<close>

theorem canonicalize_highres_unchanged:
  assumes marker: "strIncludes u ''_960x960'' \<or> strIncludes u ''_800x800''
                   \<or> strIncludes u ''_1200x1200'' \<or> strIncludes u ''_1600x1600''"
    and clean: "cleanUrl u = u"
    and nodata: "\<not> startsWith False u ''data:''"
  shows "canonicalize u = Some u"
proof -
  have "rx_test False highResRx u"
    using marker by (auto simp: highResRx_def rx_test_lits)
  then have "upgradeUrl u = u"
    by (simp add: upgradeUrl_def)
  then show ?thesis
    using clean nodata by (simp add: canonicalize_def Let_def)
qed

lemma eval_highres_hyps:
  "strIncludes ''https://sc04.alicdn.com/kf/H1_960x960q80.jpg?a=1?b=_50x50'' ''_960x960''
   \<and> cleanUrl ''https://sc04.alicdn.com/kf/H1_960x960q80.jpg?a=1?b=_50x50''
       = ''https://sc04.alicdn.com/kf/H1_960x960q80.jpg?a=1?b=_50x50''
   \<and> \<not> startsWith False ''https://sc04.alicdn.com/kf/H1_960x960q80.jpg?a=1?b=_50x50'' ''data:''"
  by code_simp

theorem canonicalize_highres_unchanged_witness:
  "strIncludes ''https://sc04.alicdn.com/kf/H1_960x960q80.jpg?a=1?b=_50x50'' ''_960x960''
   \<and> canonicalize ''https://sc04.alicdn.com/kf/H1_960x960q80.jpg?a=1?b=_50x50''
       = Some ''https://sc04.alicdn.com/kf/H1_960x960q80.jpg?a=1?b=_50x50''"
  using eval_highres_hyps
    canonicalize_highres_unchanged[of "''https://sc04.alicdn.com/kf/H1_960x960q80.jpg?a=1?b=_50x50''"]
  by blast

text \<open>
  C1.  Idempotence of the canonicalisation fails on the code.  The URL below is a match
  of the second pattern; its thumbnail marker stands after a second \<open>?\<close>.  The
  thumbnail branch re-attaches only \<open>urlParts[1]\<close>, so the first pass drops
  \<open>?t=_50x50\<close> and rewrites nothing; the second pass then sees a CDN URL without a size
  marker and inserts \<open>_960x960q80\<close>: the second result differs from the first.
\<close>

theorem canonicalize_twice_differs:
  "rx_matchAll True (imagePatterns ! 1) ''https://sc04.alicdn.com/kf/H1.jpg?v=1?t=_50x50''
     = [''https://sc04.alicdn.com/kf/H1.jpg?v=1?t=_50x50'']
   \<and> canonicalize ''https://sc04.alicdn.com/kf/H1.jpg?v=1?t=_50x50''
     = Some ''https://sc04.alicdn.com/kf/H1.jpg?v=1''
   \<and> canonicalize ''https://sc04.alicdn.com/kf/H1.jpg?v=1''
     = Some ''https://sc04.alicdn.com/kf/H1_960x960q80.jpg?v=1''"
  by code_simp

text \<open>
  C2.  Query-string preservation fails on the code for a query that itself contains
  \<open>?\<close>: \<open>split('?')\<close> cuts at every \<open>?\<close> and only \<open>urlParts[1]\<close> is re-attached.
  The base path of the URL below is transformed (the thumbnail marker is upgraded), and
  the query \<open>x=1?y=2\<close> comes back as \<open>x=1\<close>.
\<close>

theorem upgrade_truncates_query:
  "canonicalize (''https://sc04.alicdn.com/kf/H1_50x50.jpg'' @ ''?'' @ ''x=1?y=2'')
     = Some ''https://sc04.alicdn.com/kf/H1_960x960q80.jpg?x=1''
   \<and> queryOf ''https://sc04.alicdn.com/kf/H1_960x960q80.jpg?x=1'' = ''x=1''"
  by code_simp

text \<open>
  The intended case does hold: a non-empty query without a further \<open>?\<close> comes back as it
  was, whichever branch the URL takes.
\<close>

lemma upgrade_keeps_single_query:
  assumes b: "CHR ''?'' \<notin> set base" and q: "CHR ''?'' \<notin> set q" "q \<noteq> []"
  shows "queryOf (upgradeUrl (base @ ''?'' @ q)) = q"
proof -
  let ?u = "base @ ''?'' @ q"
  have sp: "strSplit (CHR ''?'') ?u = [base, q]"
    using strSplit_one_sep[OF b q(1)] by simp
  have qs: "queryStringOf [base, q] = ''?'' @ q"
    using q(2) by (simp add: queryStringOf_def)
  have r1: "CHR ''?'' \<notin> set (rx_replaceAll False lowResRx ''_960x960q80'' base)"
    using set_rx_replaceAll[of False lowResRx "''_960x960q80''" base] b by auto
  have r2: "CHR ''?'' \<notin> set (rx_replaceFirst True extEndRx [T ''_960x960q80.'', G1] base)"
    using set_rx_replaceFirst_ext[of True extEndRx base] b by auto
  show ?thesis
    unfolding upgradeUrl_def sp Let_def qs
    using queryOf_append[OF b, of q] queryOf_append[OF r1, of q] queryOf_append[OF r2, of q]
    by simp
qed

text \<open>
  On a URL with at most one \<open>?\<close> the upgrade step is idempotent: a branch that rewrites
  the base path leaves a high-resolution marker behind, which the next pass accepts as it
  is, and a thumbnail marker that stands only in the query leaves the URL as it was.
\<close>

lemma highRes_of_marker:
  assumes "strIncludes s m" "strIncludes m ''_960x960''"
  shows "rx_test False highResRx (s @ t)"
proof -
  from assms have "strIncludes s ''_960x960''" by (rule strIncludes_trans)
  then have "strIncludes ([] @ s @ t) ''_960x960''" by (rule strIncludes_appendI)
  then show ?thesis by (simp add: highResRx_def rx_test_lits)
qed

lemma replaceFirst_includes:
  assumes "rx_test ci r s"
  shows "strIncludes (rx_replaceFirst ci r (T t # ps) s) t"
proof -
  from assms obtain b m a g where "rx_find ci r s = Some (b, m, a, g)"
    unfolding rx_test_def by (cases "rx_find ci r s") auto
  then have "rx_replaceFirst ci r (T t # ps) s = b @ t @ (expand ps g @ a)"
    by (simp add: rx_replaceFirst_def)
  then show ?thesis unfolding strIncludes_iff by blast
qed

lemma lowRes_only_in_query:
  assumes one: "length (filter (\<lambda>c. c = CHR ''?'') u) \<le> 1"
    and low: "rx_test False lowResRx u"
    and nb: "\<not> rx_test False lowResRx (hd (strSplit (CHR ''?'') u))"
  shows "hd (strSplit (CHR ''?'') u) @ queryStringOf (strSplit (CHR ''?'') u) = u"
proof -
  from at_most_one_sep[OF one]
  consider "CHR ''?'' \<notin> set u"
    | a b where "u = a @ CHR ''?'' # b" "CHR ''?'' \<notin> set a" "CHR ''?'' \<notin> set b"
    by blast
  then show ?thesis
  proof cases
    case 1
    then show ?thesis by (simp add: strSplit_no_sep queryStringOf_def)
  next
    case 2
    then have sp: "strSplit (CHR ''?'') u = [a, b]" by (simp add: strSplit_one_sep)
    show ?thesis
    proof (cases "b = []")
      case True
      from low obtain l where l: "l \<in> set [''_50x50'', ''_100x100'', ''_80x80'']"
        "strIncludes (a @ CHR ''?'' # []) l"
        unfolding lowResRx_def rx_test_lits using 2(1) True by blast
      from l(1) have q: "CHR ''?'' \<notin> set l" "l \<noteq> []" by auto
      from strIncludes_split[OF l(2) q(1)] q(2) have "strIncludes a l" by simp
      with l(1) have "rx_test False lowResRx a"
        unfolding lowResRx_def rx_test_lits by blast
      then show ?thesis using nb sp by simp
    next
      case False
      then show ?thesis using sp 2(1) by (simp add: queryStringOf_def)
    qed
  qed
qed

lemma upgradeUrl_idem_one_query:
  assumes one: "length (filter (\<lambda>c. c = CHR ''?'') u) \<le> 1"
  shows "upgradeUrl (upgradeUrl u) = upgradeUrl u"
proof -
  define base where "base = hd (strSplit (CHR ''?'') u)"
  define qs where "qs = queryStringOf (strSplit (CHR ''?'') u)"
  have fixed: "upgradeUrl v = v" if "rx_test False highResRx v" for v
    using that by (simp add: upgradeUrl_def)
  show ?thesis
  proof (cases "rx_test False highResRx u")
    case True
    then show ?thesis by (simp add: fixed)
  next
    case nh: False
    show ?thesis
    proof (cases "rx_test False lowResRx u")
      case low: True
      have up: "upgradeUrl u = rx_replaceAll False lowResRx ''_960x960q80'' base @ qs"
        using nh low by (simp add: upgradeUrl_def Let_def base_def qs_def)
      show ?thesis
      proof (cases "rx_test False lowResRx base")
        case True
        have "rx_match False lowResRx [] [] = None"
          unfolding lowResRx_def by (rule lits_no_empty_match) simp
        then have "strIncludes (rx_replaceAll_from False lowResRx ''_960x960q80'' 0 base)
                     ''_960x960q80''"
          using True by (rule replaceAll_includes_repl)
        moreover have "strIncludes ''_960x960q80'' ''_960x960''" by simp
        ultimately have "rx_test False highResRx (upgradeUrl u)"
          unfolding up rx_replaceAll_def by (rule highRes_of_marker)
        then show ?thesis by (rule fixed)
      next
        case False
        then have "rx_replaceAll False lowResRx ''_960x960q80'' base = base"
          unfolding rx_replaceAll_def by (rule replaceAll_no_match)
        moreover have "base @ qs = u"
          unfolding base_def qs_def using one low False[unfolded base_def]
          by (rule lowRes_only_in_query)
        ultimately have "upgradeUrl u = u" using up by simp
        then show ?thesis by simp
      qed
    next
      case nl: False
      show ?thesis
      proof (cases "(strIncludes u ''alicdn.com'' \<and> \<not> rx_test False sizeRx u)
                     \<and> rx_test True extEndRx base \<and> \<not> rx_test False sizeRx base")
        case True
        then have up: "upgradeUrl u =
            rx_replaceFirst True extEndRx [T ''_960x960q80.'', G1] base @ qs"
          using nh nl by (simp add: upgradeUrl_def Let_def base_def qs_def)
        from True have "rx_test True extEndRx base" by simp
        then have "strIncludes (rx_replaceFirst True extEndRx [T ''_960x960q80.'', G1] base)
                     ''_960x960q80.''"
          by (rule replaceFirst_includes)
        moreover have "strIncludes ''_960x960q80.'' ''_960x960''" by simp
        ultimately have "rx_test False highResRx (upgradeUrl u)"
          unfolding up by (rule highRes_of_marker)
        then show ?thesis by (rule fixed)
      next
        case False
        then have "upgradeUrl u = u"
          using nh nl by (auto simp add: upgradeUrl_def Let_def base_def qs_def)
        then show ?thesis by simp
      qed
    qed
  qed
qed

lemma canonicalize_stable_one_query:
  assumes "canonicalize m = Some v"
    and "length (filter (\<lambda>c. c = CHR ''?'') (cleanUrl m)) \<le> 1"
  shows "upgradeUrl v = v"
proof -
  from assms(1) have "v = upgradeUrl (cleanUrl m)"
    by (auto simp: canonicalize_def Let_def split: if_splits)
  then show ?thesis using upgradeUrl_idem_one_query[OF assms(2)] by simp
qed

section \<open>The exclusion filter and the two intake paths\<close>

text \<open>
  C3.  The exclusion invariant fails on the direct image-response path.  The handler's
  own \<open>skipPatterns\<close> list \<open>_50x50\<close>, \<open>_80x80\<close>, \<open>_100x100\<close> but none of \<open>_20x20\<close>,
  \<open>_40x40\<close>, \<open>_48x48\<close>, \<open>_60x60\<close>: a CDN image URL with the small-UI marker \<open>_40x40\<close>
  matches the extractor's exclusion patterns and is still added to the global set
  \<open>imageUrls\<close>.  The response below has an image content type, and neither that nor
  its URL passes the test of the handler's first part, so the response goes to the
  second part alone.
\<close>

theorem direct_path_admits_small_marker:
  "isExcluded ''https://sc04.alicdn.com/kf/H1_40x40.jpg''
   \<and> imageUrls (interceptDirectImage ''https://sc04.alicdn.com/kf/H1_40x40.jpg'' newExtractor)
     = [''https://sc04.alicdn.com/kf/H1_40x40.jpg'']
   \<and> \<not> isApiResponse ''image/jpeg'' ''https://sc04.alicdn.com/kf/H1_40x40.jpg''
   \<and> imageUrls (onResponse (\<lambda>body. None)
         \<lparr>respUrl = ''https://sc04.alicdn.com/kf/H1_40x40.jpg'', contentType = ''image/jpeg'',
          respText = Some []\<rparr> newExtractor)
     = [''https://sc04.alicdn.com/kf/H1_40x40.jpg'']"
  by code_simp

text \<open>
  The first part of the handler comes before the second: a response that passes its test
  with a body that is not JSON is searched as text and the handler returns, so the URL
  of the response is not added; when the body cannot be read, the error is caught and the
  second part adds the URL.
\<close>

lemma text_body_returns_early:
  "imageUrls (onResponse (\<lambda>body. None)
       \<lparr>respUrl = ''https://sc04.alicdn.com/api/H1.jpg'', contentType = ''image/jpeg'',
        respText = Some ''not json''\<rparr> newExtractor) = []
   \<and> imageUrls (onResponse (\<lambda>body. None)
       \<lparr>respUrl = ''https://sc04.alicdn.com/api/H1.jpg'', contentType = ''image/jpeg'',
        respText = None\<rparr> newExtractor) = [''https://sc04.alicdn.com/api/H1_960x960q80.jpg'']"
  by code_simp

section \<open>The return value of \<open>extractFromResponse\<close>\<close>

lemma found_captureMatch:
  "fst (captureMatch productId acc match) = (fst acc \<or> survives match)"
  by (cases acc) (simp add: captureMatch_def survives_def Let_def)

lemma found_foldl_captureMatch:
  "fst (foldl (captureMatch productId) acc ms) = (fst acc \<or> list_ex survives ms)"
  by (induction ms arbitrary: acc) (auto simp: found_captureMatch)

lemma found_foldl_patterns:
  "fst (foldl (\<lambda>acc pattern. foldl (captureMatch productId) acc (f pattern)) acc ps)
     = (fst acc \<or> list_ex survives (concat (map f ps)))"
  by (induction ps arbitrary: acc) (auto simp: found_foldl_captureMatch)

lemma eval_extract_first:
  "extractFromResponse ''a https://sc04.alicdn.com/kf/H1_960x960.jpg'' None newExtractor
     = (True, \<lparr>imageUrls = [''https://sc04.alicdn.com/kf/H1_960x960.jpg''], productImages = []\<rparr>)"
  by code_simp

lemma eval_extract_again:
  "extractFromResponse ''a https://sc04.alicdn.com/kf/H1_960x960.jpg'' None
       \<lparr>imageUrls = [''https://sc04.alicdn.com/kf/H1_960x960.jpg''], productImages = []\<rparr>
     = (True, \<lparr>imageUrls = [''https://sc04.alicdn.com/kf/H1_960x960.jpg''], productImages = []\<rparr>)"
  by code_simp

text \<open>
  C9, as stated, fails: \<open>found\<close> is set for every match that passes the filters, new to
  the store or not.  The store below is the one a first call on the payload leaves; a
  second call on the same payload captures nothing new, leaves the store as it is, and
  returns \<open>true\<close>.
\<close>

theorem found_without_new_capture:
  "snd (extractFromResponse ''a https://sc04.alicdn.com/kf/H1_960x960.jpg'' None newExtractor)
     = \<lparr>imageUrls = [''https://sc04.alicdn.com/kf/H1_960x960.jpg''], productImages = []\<rparr>
   \<and> fst (extractFromResponse ''a https://sc04.alicdn.com/kf/H1_960x960.jpg'' None
        \<lparr>imageUrls = [''https://sc04.alicdn.com/kf/H1_960x960.jpg''], productImages = []\<rparr>)
   \<and> snd (extractFromResponse ''a https://sc04.alicdn.com/kf/H1_960x960.jpg'' None
        \<lparr>imageUrls = [''https://sc04.alicdn.com/kf/H1_960x960.jpg''], productImages = []\<rparr>)
     = \<lparr>imageUrls = [''https://sc04.alicdn.com/kf/H1_960x960.jpg''], productImages = []\<rparr>"
  by (simp add: eval_extract_first eval_extract_again)

text \<open>
  C9, amended.  \<open>extractFromResponse\<close> returns only a truth value, and it is \<open>true\<close>
  exactly when at least one match of the call is neither a \<open>data:\<close> URI nor excluded,
  whether its canonical form was already in the store or not.
\<close>

theorem found_iff_survivor:
  "fst (extractFromResponse bodyString productId st) = list_ex survives (allMatches bodyString)"
  unfolding extractFromResponse_def allMatches_def
  by (simp add: found_foldl_patterns)

section \<open>The ranking order\<close>

lemma compareUrls_le: "compareUrls a b \<le> 0 \<longleftrightarrow> rankBefore a b"
  by (auto simp: compareUrls_def rankBefore_def Let_def)

lemma rankBefore_total: "rankBefore a b \<or> rankBefore b a"
  by (auto simp: rankBefore_def)

lemma rankBefore_trans: "rankBefore a b \<Longrightarrow> rankBefore b c \<Longrightarrow> rankBefore a c"
  by (auto simp: rankBefore_def)

lemma set_insertBy: "set (insertBy cmp x ys) = insert x (set ys)"
  by (induction ys) auto

lemma mset_insertBy: "mset (insertBy cmp x ys) = add_mset x (mset ys)"
  by (induction ys) auto

lemma mset_jsSort: "mset (jsSort cmp xs) = mset xs"
  by (induction xs) (auto simp: jsSort_def mset_insertBy)

lemma sorted_insertBy:
  "sorted_wrt rankBefore ys \<Longrightarrow> sorted_wrt rankBefore (insertBy compareUrls x ys)"
proof (induction ys)
  case Nil
  then show ?case by simp
next
  case (Cons y ys)
  show ?case
  proof (cases "compareUrls x y \<le> 0")
    case True
    then have xy: "rankBefore x y" by (simp add: compareUrls_le)
    have "\<forall>z \<in> set ys. rankBefore x z"
      using Cons.prems xy rankBefore_trans by auto
    then show ?thesis using True xy Cons.prems by simp
  next
    case False
    then have yx: "rankBefore y x" using rankBefore_total[of x y] by (simp add: compareUrls_le)
    then show ?thesis using False Cons by (auto simp: set_insertBy)
  qed
qed

lemma sorted_jsSort: "sorted_wrt rankBefore (jsSort compareUrls xs)"
  by (induction xs) (auto simp: jsSort_def sorted_insertBy)

lemma set_foldl_setAdd: "set (foldl setAdd acc xs) = set acc \<union> set xs"
  by (induction xs arbitrary: acc) (auto simp: setAdd_def)




lemma set_rankUrls: "set (rankUrls allUrls) = {u \<in> set allUrls. qualifies u}"
proof -
  have "set (rankUrls allUrls) = set_mset (mset (dedupe (filter qualifies allUrls)))"
    unfolding rankUrls_def by (metis mset_jsSort set_mset_mset)
  then show ?thesis by (simp add: dedupe_def set_foldl_setAdd)
qed

text \<open>No URL of the ranked list matches an exclusion pattern.\<close>

lemma qualifies_not_excluded: "qualifies u \<Longrightarrow> \<not> isExcluded u"
  by (auto simp: qualifies_def isExcluded_def rankSkipPatterns_def split: if_splits)

lemma ranked_never_excluded: "u \<in> set (rankUrls allUrls) \<Longrightarrow> \<not> isExcluded u"
  using set_rankUrls qualifies_not_excluded by auto

lemma filter_insertBy_other:
  "\<not> P x \<Longrightarrow> filter P (insertBy cmp x ys) = filter P ys"
  by (induction ys) auto

lemma filter_insertBy_same:
  assumes "sizeOf x = n" "isKf x = b"
  shows "filter (\<lambda>y. sizeOf y = n \<and> isKf y = b) (insertBy compareUrls x ys)
           = x # filter (\<lambda>y. sizeOf y = n \<and> isKf y = b) ys"
proof (induction ys)
  case Nil
  then show ?case using assms by simp
next
  case (Cons y ys)
  show ?case
  proof (cases "compareUrls x y \<le> 0")
    case True
    then show ?thesis using assms by simp
  next
    case False
    then have "\<not> rankBefore x y" by (simp add: compareUrls_le)
    then have ny: "\<not> (sizeOf y = n \<and> isKf y = b)" using assms by (auto simp: rankBefore_def)
    have "insertBy compareUrls x (y # ys) = y # insertBy compareUrls x ys" using False by simp
    then show ?thesis using ny Cons.IH by auto
  qed
qed

text \<open>The sort is stable: URLs of equal size and equal \<open>/kf/\<close> status keep their order.\<close>

lemma jsSort_stable:
  "filter (\<lambda>y. sizeOf y = n \<and> isKf y = b) (jsSort compareUrls xs)
     = filter (\<lambda>y. sizeOf y = n \<and> isKf y = b) xs"
proof (induction xs)
  case Nil
  then show ?case by (simp add: jsSort_def)
next
  case (Cons x xs)
  have step: "jsSort compareUrls (x # xs) = insertBy compareUrls x (jsSort compareUrls xs)"
    by (simp add: jsSort_def)
  show ?case
  proof (cases "sizeOf x = n \<and> isKf x = b")
    case True
    then show ?thesis using Cons.IH filter_insertBy_same[of x n b] by (simp add: step)
  next
    case False
    then show ?thesis using Cons.IH by (simp add: step filter_insertBy_other)
  qed
qed

text \<open>
  C6.  The ranking step returns the qualifying URLs sorted by the size read from the
  size marker (0 without one), largest first, and of two URLs of equal size of which
  exactly one is under \<open>/kf/\<close>, the one under \<open>/kf/\<close> stands first.  The sizes are
  those \<open>parseInt\<close> represents exactly, below \<open>2^53\<close>.
\<close>

theorem rank_by_size_then_kf:
  assumes exact: "\<forall>u \<in> set allUrls. sizeOf u < 2 ^ 53"
  shows "set (rankUrls allUrls) = {u \<in> set allUrls. qualifies u}
    \<and> sorted_wrt (\<lambda>a b. sizeOf b \<le> sizeOf a) (rankUrls allUrls)
    \<and> (\<forall>i j. i < length (rankUrls allUrls) \<and> j < length (rankUrls allUrls)
          \<and> sizeOf (rankUrls allUrls ! i) = sizeOf (rankUrls allUrls ! j)
          \<and> isKf (rankUrls allUrls ! i) \<and> \<not> isKf (rankUrls allUrls ! j)
          \<longrightarrow> i < j)"
proof -
  let ?rs = "rankUrls allUrls"
  have s: "sorted_wrt rankBefore ?rs"
    unfolding rankUrls_def by (rule sorted_jsSort)
  have a: "sorted_wrt (\<lambda>a b. sizeOf b \<le> sizeOf a) ?rs"
    by (rule sorted_wrt_mono_rel[OF _ s]) (auto simp: rankBefore_def)
  have b: "i < j" if h: "i < length ?rs" "j < length ?rs" "sizeOf (?rs ! i) = sizeOf (?rs ! j)"
      "isKf (?rs ! i)" "\<not> isKf (?rs ! j)" for i j
  proof (rule ccontr)
    assume "\<not> i < j"
    then consider "i = j" | "j < i" by linarith
    then show False
    proof cases
      case 1
      then show False using h by simp
    next
      case 2
      then have "rankBefore (?rs ! j) (?rs ! i)"
        using s h(1) by (simp add: sorted_wrt_iff_nth_less)
      then show False using h by (simp add: rankBefore_def)
    qed
  qed
  show ?thesis using a b set_rankUrls by blast
qed

lemma eval_rank_sizes:
  "map sizeOf [''//a.alicdn.com/x_800x800.jpg'', ''//a.alicdn.com/y_960x960.jpg'',
               ''//a.alicdn.com/kf/z_800x800.jpg''] = [800, 960, 800]"
  by code_simp

lemma eval_rank_list:
  "rankUrls [''//a.alicdn.com/x_800x800.jpg'', ''//a.alicdn.com/y_960x960.jpg'',
             ''//a.alicdn.com/kf/z_800x800.jpg'']
     = [''//a.alicdn.com/y_960x960.jpg'', ''//a.alicdn.com/kf/z_800x800.jpg'',
        ''//a.alicdn.com/x_800x800.jpg'']"
  by code_simp

theorem rank_by_size_then_kf_witness:
  "list_all (\<lambda>u. sizeOf u < 2 ^ 53)
     [''//a.alicdn.com/x_800x800.jpg'', ''//a.alicdn.com/y_960x960.jpg'',
      ''//a.alicdn.com/kf/z_800x800.jpg'']
   \<and> rankUrls [''//a.alicdn.com/x_800x800.jpg'', ''//a.alicdn.com/y_960x960.jpg'',
               ''//a.alicdn.com/kf/z_800x800.jpg'']
       = [''//a.alicdn.com/y_960x960.jpg'', ''//a.alicdn.com/kf/z_800x800.jpg'',
          ''//a.alicdn.com/x_800x800.jpg'']
   \<and> sorted_wrt (\<lambda>a b. sizeOf b \<le> sizeOf a)
        (rankUrls [''//a.alicdn.com/x_800x800.jpg'', ''//a.alicdn.com/y_960x960.jpg'',
                   ''//a.alicdn.com/kf/z_800x800.jpg''])"
proof -
  let ?L = "[''//a.alicdn.com/x_800x800.jpg'', ''//a.alicdn.com/y_960x960.jpg'',
             ''//a.alicdn.com/kf/z_800x800.jpg'']"
  have sizes: "list_all (\<lambda>u. sizeOf u < 2 ^ 53) ?L"
    using eval_rank_sizes by simp
  then have "\<forall>u \<in> set ?L. sizeOf u < 2 ^ 53"
    by (simp only: list_all_iff)
  from rank_by_size_then_kf[OF this] sizes eval_rank_list show ?thesis by blast
qed

section \<open>The extension of a path with a size suffix\<close>
















section \<open>The destination path\<close>

text \<open>
  The file name \<open>downloadImage\<close> builds is a single path segment that normalisation
  leaves alone, so the destination is never the product directory itself.
\<close>

lemma strSplit_append_sep: "strSplit sep (a @ sep # b) = strSplit sep a @ strSplit sep b"
proof (induction a)
  case Nil
  then show ?case by simp
next
  case (Cons c a)
  have "strSplit sep a \<noteq> []" by (rule strSplit_nonempty)
  then show ?case using Cons by (cases "strSplit sep a") (auto simp: Let_def)
qed

lemma strSplit_segments: "s \<in> set (strSplit sep p) \<Longrightarrow> sep \<notin> set s"
proof (induction p arbitrary: s)
  case Nil
  then show ?case by simp
next
  case (Cons c p)
  obtain x xs where ps: "strSplit sep p = x # xs"
    using strSplit_nonempty[of sep p] by (cases "strSplit sep p") auto
  show ?case
  proof (cases "c = sep")
    case True
    then show ?thesis using Cons by (auto simp: Let_def)
  next
    case False
    then have "s = c # x \<or> s \<in> set xs" using Cons.prems ps by (auto simp: Let_def)
    then show ?thesis using Cons.IH[of x] Cons.IH[of s] ps False by auto
  qed
qed

lemma normalizeSegs_snoc:
  "normalSeg n \<Longrightarrow> normalizeSegs a res (xs @ [n]) = normalizeSegs a res xs @ [n]"
  by (induction xs arbitrary: res) (auto simp: normalSeg_def)

lemma set_normalizeSegs:
  "s \<in> set (normalizeSegs a res xs) \<Longrightarrow> s \<in> set res \<or> s \<in> set xs \<or> s = ''..''"
proof (induction xs arbitrary: res)
  case Nil
  then show ?case by simp
next
  case (Cons x xs)
  from Cons.prems consider "s \<in> set (normalizeSegs a res xs)"
    | "s \<in> set (normalizeSegs a (butlast res) xs)"
    | "s \<in> set (normalizeSegs a (res @ [''..'']) xs)"
    | "s \<in> set (normalizeSegs a (res @ [x]) xs)"
    by (simp split: if_splits)
  then show ?case
  proof cases
    case 1
    then show ?thesis using Cons.IH[of res] by auto
  next
    case 2
    then show ?thesis using Cons.IH[of "butlast res"] by (auto dest: in_set_butlastD)
  next
    case 3
    then show ?thesis using Cons.IH[of "res @ [''..'']"] by auto
  next
    case 4
    then show ?thesis using Cons.IH[of "res @ [x]"] by auto
  qed
qed

lemma strSplit_joinSegs:
  "Y \<noteq> [] \<Longrightarrow> \<forall>s \<in> set Y. sep \<notin> set s \<Longrightarrow> sep = CHR ''/'' \<Longrightarrow> strSplit sep (joinSegs Y) = Y"
proof (induction Y rule: joinSegs.induct)
  case 1
  then show ?case by simp
next
  case (2 s)
  then show ?case by (simp add: strSplit_no_sep)
next
  case (3 s t ss)
  have "strSplit sep (joinSegs (s # t # ss)) = strSplit sep s @ strSplit sep (joinSegs (t # ss))"
    using strSplit_append_sep[of sep s "joinSegs (t # ss)"] 3(4) by simp
  then show ?case using 3 by (simp add: strSplit_no_sep)
qed

lemma normalizeSegs_no_fix:
  "normalSeg n \<Longrightarrow> X \<noteq> normalizeSegs a [] X @ [n]"
proof (induction X rule: length_induct)
  case (1 X)
  show ?case
  proof
    assume eq: "X = normalizeSegs a [] X @ [n]"
    define Y where "Y = normalizeSegs a [] X"
    have X: "X = Y @ [n]" using eq Y_def by simp
    have "Y = normalizeSegs a [] (Y @ [n])" using Y_def X by simp
    then have "Y = normalizeSegs a [] Y @ [n]" using normalizeSegs_snoc[OF 1(2)] by simp
    moreover have "length Y < length X" using X by simp
    ultimately show False using 1 by blast
  qed
qed

lemma joinSegs_snoc_nonempty: "n \<noteq> [] \<Longrightarrow> joinSegs (X @ [n]) \<noteq> []"
  by (induction X rule: joinSegs.induct) auto

lemma path_normalize_nonempty: "path_normalize p \<noteq> []"
  by (auto simp: path_normalize_def Let_def)

lemma pathJoin_neq:
  assumes n: "normalSeg n"
  shows "pathJoin p n \<noteq> p"
proof (cases "p = []")
  case True
  then show ?thesis using n path_normalize_nonempty[of n]
    by (auto simp: pathJoin_def Let_def normalSeg_def)
next
  case False
  let ?sep = "CHR ''/''"
  have nn: "n \<noteq> []" "?sep \<notin> set n" using n by (auto simp: normalSeg_def)
  let ?j = "p @ ''/'' @ n"
  let ?abs = "hd p = ?sep"
  let ?S = "strSplit ?sep p"
  let ?X = "normalizeSegs (\<not> ?abs) [] ?S"
  have j: "pathJoin p n = path_normalize ?j"
    using False nn by (simp add: pathJoin_def Let_def)
  have hd: "hd ?j = hd p" using False by simp
  have lst: "last ?j \<noteq> ?sep" using nn by (metis append_is_Nil_conv last_appendR last_in_set)
  have sp: "strSplit ?sep ?j = ?S @ [n]"
    using strSplit_append_sep[of ?sep p n] nn by (simp add: strSplit_no_sep)
  have body: "joinSegs (normalizeSegs (\<not> ?abs) [] (strSplit ?sep ?j)) = joinSegs (?X @ [n])"
    unfolding sp using normalizeSegs_snoc[OF n] by simp
  have r: "pathJoin p n = (if ?abs then ''/'' else []) @ joinSegs (?X @ [n])"
    unfolding j path_normalize_def Let_def hd body
    using lst joinSegs_snoc_nonempty[OF nn(1)] by simp
  have segs: "\<forall>s \<in> set (?X @ [n]). ?sep \<notin> set s"
  proof
    fix s assume "s \<in> set (?X @ [n])"
    then consider "s = n" | "s \<in> set ?S" | "s = ''..''"
      using set_normalizeSegs[of s "\<not> ?abs" "[]" ?S] by auto
    then show "?sep \<notin> set s" using nn strSplit_segments by cases auto
  qed
  show ?thesis
  proof
    assume eq: "pathJoin p n = p"
    have "?S = (if ?abs then [[]] else []) @ ?X @ [n]"
    proof -
      have "?S = strSplit ?sep ((if ?abs then ''/'' else []) @ joinSegs (?X @ [n]))"
        using eq r by simp
      also have "\<dots> = (if ?abs then [[]] else []) @ strSplit ?sep (joinSegs (?X @ [n]))"
        by simp
      also have "strSplit ?sep (joinSegs (?X @ [n])) = ?X @ [n]"
        using segs by (intro strSplit_joinSegs) auto
      finally show ?thesis .
    qed
    then have "?X = normalizeSegs (\<not> ?abs) [] ((if ?abs then [[]] else []) @ ?X @ [n])"
      by simp
    also have "\<dots> = normalizeSegs (\<not> ?abs) [] (?X @ [n])" by simp
    also have "\<dots> = normalizeSegs (\<not> ?abs) [] ?X @ [n]" by (rule normalizeSegs_snoc[OF n])
    finally show False using normalizeSegs_no_fix[OF n] by blast
  qed
qed

lemma showNat_no_slash: "CHR ''/'' \<notin> set (showNat n)"
proof (induction n rule: showNat.induct)
  case (1 n)
  have d: "showNat_digit k \<noteq> CHR ''/''" if "k < 10" for k
  proof -
    have "''0123456789'' ! k \<in> set ''0123456789''" using that by (intro nth_mem) simp
    then show ?thesis unfolding showNat_digit_def by auto
  qed
  show ?case
  proof (cases "n < 10")
    case True
    then show ?thesis using d[of n] by (subst showNat.simps) simp
  next
    case False
    have "n mod 10 < 10" by simp
    then show ?thesis using False 1 d[of "n mod 10"] by (subst showNat.simps) simp
  qed
qed

lemma trim_subset: "set (trim s) \<subseteq> set s"
  unfolding trim_def by (auto dest!: set_dropWhileD)

lemma sanitizeFileName_no_slash: "CHR ''/'' \<notin> set (sanitizeFileName x)"
proof (cases "x = []")
  case True
  then show ?thesis by (simp add: sanitizeFileName_def)
next
  case False
  let ?m = "map (\<lambda>c. if isBadFileChar c then CHR ''_'' else c) x"
  let ?a = "rx_replaceAll False [Plus isSpace] ''_'' ?m"
  let ?b = "rx_replaceAll False [Plus (\<lambda>c. c = CHR ''_'')] ''_'' ?a"
  have m: "CHR ''/'' \<notin> set ?m" by (auto simp: isBadFileChar_def)
  have a: "CHR ''/'' \<notin> set ?a"
    using set_rx_replaceAll[of False "[Plus isSpace]" "''_''" ?m] m by auto
  have b: "CHR ''/'' \<notin> set ?b"
    using set_rx_replaceAll[of False "[Plus (\<lambda>c. c = CHR ''_'')]" "''_''" ?a] a by auto
  have "set (trim (take 200 ?b)) \<subseteq> set ?b"
    using trim_subset[of "take 200 ?b"] set_take_subset[of 200 ?b] by blast
  then have "CHR ''/'' \<notin> set (trim (take 200 ?b))" using b by blast
  then show ?thesis using False by (simp add: sanitizeFileName_def)
qed

lemma path_extname_no_slash: "CHR ''/'' \<notin> set (path_extname p)"
  unfolding path_extname_def Let_def by (auto dest!: set_takeWhileD)

lemma deriveExtension_no_slash: "CHR ''/'' \<notin> set (deriveExtension p)"
  using path_extname_no_slash[of "rx_replaceFirst True sizeSuffixRx [T ''.'', G1] p"]
  by (simp add: deriveExtension_def Let_def)

lemma normalSeg_fileNameOf: "normalSeg (fileNameOf productName index (deriveExtension p))"
proof -
  let ?f = "fileNameOf productName index (deriveExtension p)"
  have u: "CHR ''_'' \<in> set ?f" by (simp add: fileNameOf_def)
  have s: "CHR ''/'' \<notin> set ?f"
    using showNat_no_slash[of index] sanitizeFileName_no_slash deriveExtension_no_slash[of p]
    by (simp add: fileNameOf_def)
  have "?f \<noteq> []" "?f \<noteq> ''.''" "?f \<noteq> ''..''" using u by auto
  then show ?thesis using s by (simp add: normalSeg_def)
qed

lemma eval_pathJoin:
  "pathJoin ''downloads'' ''77'' = ''downloads/77''
   \<and> pathJoin ''downloads'' ''..'' = ''.''
   \<and> pathJoin ''a//b/'' ''c/../d/'' = ''a/b/d/''
   \<and> filePathOf ''downloads'' (Some ''..'') None 0 ''/kf/a.jpg'' = ''image_0.jpg''"
  by code_simp

lemma filePath_neq_productDir:
  "filePathOf downloadDir productId productName index pathname \<noteq> productDirOf downloadDir productId"
  unfolding filePathOf_def by (rule pathJoin_neq) (rule normalSeg_fileNameOf)

lemma exists_after_mkdirp:
  "filePathOf downloadDir productId productName index pathname
     \<in> set (files (mkdirp (productDirOf downloadDir productId) w))
   \<longleftrightarrow> filePathOf downloadDir productId productName index pathname \<in> set (files w)"
  using filePath_neq_productDir[of downloadDir productId productName index pathname]
  by (auto simp: mkdirp_def)

lemma files_setFile: "p \<in> set (files (setFile p present w)) \<longleftrightarrow> present"
  by (auto simp: setFile_def)

section \<open>A stream error and the file it leaves\<close>

lemmas handler_defs = onWriterFinish_def onWriterError_def onResponseError_def resolve_def reject_def
  unlinkIfExists_def destroyWriter_def

lemma cleaned_onEvent: "cleaned t \<Longrightarrow> cleaned (onEvent p t ev)"
  by (cases ev) (auto simp: cleaned_def handler_defs)

lemma cleaned_foldl: "cleaned t \<Longrightarrow> cleaned (foldl (onEvent p) t evs)"
  by (induction evs arbitrary: t) (auto simp: cleaned_onEvent)

lemma opened_onEvent: "\<not> openPending t \<Longrightarrow> \<not> openPending (onEvent p t ev)"
  by (cases ev) (auto simp: handler_defs)

lemma opened_foldl: "\<not> openPending t \<Longrightarrow> \<not> openPending (foldl (onEvent p) t evs)"
  by (induction evs arbitrary: t) (auto simp: opened_onEvent)

lemma opened_after: "Opened \<in> set evs \<Longrightarrow> \<not> openPending (foldl (onEvent p) t evs)"
proof (induction evs arbitrary: t)
  case Nil
  then show ?case by simp
next
  case (Cons a evs)
  show ?case
  proof (cases "a = Opened")
    case True
    then have "\<not> openPending (onEvent p t a)" by simp
    then show ?thesis using opened_foldl by simp
  next
    case False
    then show ?thesis using Cons by simp
  qed
qed

lemma error_event_cleans:
  "isStreamError ev \<Longrightarrow> \<not> openPending t \<or> (\<exists>e. ev = WriterError e) \<Longrightarrow> cleaned (onEvent p t ev)"
  by (cases ev) (auto simp: cleaned_def isStreamError_def handler_defs)

text \<open>
  When the open has completed before the error, or the error is the writer's own, the
  handlers do remove the file: it does not exist when the call ends, whatever the
  streams deliver afterwards.
\<close>

lemma no_partial_file_once_opened:
  assumes parse: "parseUrl env url = Some pathname"
    and fresh: "filePathOf downloadDir productId productName index pathname \<notin> set (files w0)"
    and get: "httpGet env url = Inr (pre @ ev # post)"
    and err: "isStreamError ev"
    and op: "Opened \<in> set pre \<or> (\<exists>e. ev = WriterError e)"
  shows "filePathOf downloadDir productId productName index pathname
           \<notin> set (files (snd (downloadImage env downloadDir url productId productName index w0)))"
proof -
  let ?p = "filePathOf downloadDir productId productName index pathname"
  let ?w = "mkdirp (productDirOf downloadDir productId) (w0\<lparr>attempted := attempted w0 @ [(url, index)]\<rparr>)"
  have fresh': "?p \<notin> set (files ?w)"
    using fresh exists_after_mkdirp[of downloadDir productId productName index pathname
        "w0\<lparr>attempted := attempted w0 @ [(url, index)]\<rparr>"] by simp
  let ?t = "runTransfer ?p (pre @ ev # post)"
  have res: "downloadImage env downloadDir url productId productName index w0
               = (settled ?t, setFile ?p (onDisk ?t) (?w\<lparr>requests := requests ?w @ [url]\<rparr>))"
    using parse fresh' get by (simp add: downloadImage_def Let_def)
  let ?t1 = "foldl (onEvent ?p) openTransfer pre"
  have "\<not> openPending ?t1 \<or> (\<exists>e. ev = WriterError e)"
    using op opened_after[of pre ?p openTransfer] by blast
  then have "cleaned (onEvent ?p ?t1 ev)" using err error_event_cleans by blast
  then have "cleaned ?t" by (simp add: runTransfer_def cleaned_foldl)
  then show ?thesis unfolding res by (simp add: files_setFile cleaned_def)
qed

definition raceEnv :: collaborators where
  "raceEnv = \<lparr>parseUrl = (\<lambda>u. Some ''/kf/a.jpg''),
              httpGet = (\<lambda>u. Inr [ResponseError ''aborted'', Opened])\<rparr>"


definition emptyWorld :: world where
  "emptyWorld = \<lparr>files = [], attempted = [], requests = []\<rparr>"

text \<open>
  C10.  Partial-file atomicity fails on the code when the response stream fails before
  the writer has opened the file.  \<open>createWriteStream\<close> has only started the open;
  the handler of the response error destroys the writer, finds no file at \<open>filePath\<close>,
  removes nothing and rejects; the open then completes and creates the file.  The call
  below ends with its promise rejected and the file on disk, in a world where the file
  did not exist before.
\<close>

theorem early_stream_error_leaves_file:
  "httpGet raceEnv ''https://sc04.alicdn.com/kf/a.jpg'' = Inr [ResponseError ''aborted'', Opened]
   \<and> isStreamError (ResponseError ''aborted'')
   \<and> ''downloads/77/image_0.jpg'' \<notin> set (files emptyWorld)
   \<and> filePathOf ''downloads'' (Some ''77'') None 0 ''/kf/a.jpg'' = ''downloads/77/image_0.jpg''
   \<and> downloadImage raceEnv ''downloads'' ''https://sc04.alicdn.com/kf/a.jpg'' (Some ''77'') None 0 emptyWorld
       = (Rejected ''aborted'',
          \<lparr>files = [''downloads/77'', ''downloads/77/image_0.jpg''],
           attempted = [(''https://sc04.alicdn.com/kf/a.jpg'', 0)],
           requests = [''https://sc04.alicdn.com/kf/a.jpg'']\<rparr>)"
  by code_simp

section \<open>One download per distinct URL\<close>









section \<open>Retry and the delay between attempts\<close>

lemma randomDelay_range: "lo \<le> randomDelay lo (lo * 2) draw \<and> randomDelay lo (lo * 2) draw \<le> lo * 2"
proof -
  have "draw mod (lo * 2 - lo + 1) < lo * 2 - lo + 1" by (rule mod_less_divisor) simp
  then show ?thesis by (simp add: randomDelay_def)
qed

lemma backoff_range:
  "Backoff d \<in> set (fst (scrapeProductPage cfg page draws retryCount)) \<Longrightarrow>
     retryDelay cfg \<le> d \<and> d \<le> retryDelay cfg * 2"
proof (induction cfg page draws retryCount rule: scrapeProductPage.induct)
  case (1 cfg page draws retryCount)
  show ?case
  proof (cases "attempt page retryCount")
    case (Inr result)
    then show ?thesis using "1.prems" by (simp add: scrapeProductPage.simps)
  next
    case (Inl error)
    show ?thesis
    proof (cases "retryCount < retryAttempts cfg")
      case True
      obtain trace r where rec: "scrapeProductPage cfg page draws (retryCount + 1) = (trace, r)"
        by (cases "scrapeProductPage cfg page draws (retryCount + 1)")
      have "fst (scrapeProductPage cfg page draws retryCount)
              = Attempt (retryCount + 1)
                # Backoff (randomDelay (retryDelay cfg) (retryDelay cfg * 2) (draws retryCount)) # trace"
        using Inl True rec by (subst scrapeProductPage.simps) simp
      then consider "d = randomDelay (retryDelay cfg) (retryDelay cfg * 2) (draws retryCount)"
        | "Backoff d \<in> set trace" using "1.prems" by auto
      then show ?thesis
      proof cases
        case 1
        then show ?thesis using randomDelay_range by simp
      next
        case 2
        then show ?thesis using "1.IH"[OF Inl True refl] rec by simp
      qed
    next
      case False
      then show ?thesis using Inl "1.prems" by (simp add: scrapeProductPage.simps)
    qed
  qed
qed

lemma all_fail:
  "retryCount \<le> retryAttempts cfg \<Longrightarrow>
   (\<forall>k. retryCount \<le> k \<and> k \<le> retryAttempts cfg \<longrightarrow> attempt page k = Inl (err k)) \<Longrightarrow>
     snd (scrapeProductPage cfg page draws retryCount) = Inl (err (retryAttempts cfg))
     \<and> length (filter (\<lambda>ev. \<not> isBackoff ev) (fst (scrapeProductPage cfg page draws retryCount)))
         = retryAttempts cfg + 1 - retryCount"
proof (induction cfg page draws retryCount rule: scrapeProductPage.induct)
  case (1 cfg page draws retryCount)
  have a: "attempt page retryCount = Inl (err retryCount)" using "1.prems" by simp
  show ?case
  proof (cases "retryCount < retryAttempts cfg")
    case True
    obtain trace r where rec: "scrapeProductPage cfg page draws (retryCount + 1) = (trace, r)"
      by (cases "scrapeProductPage cfg page draws (retryCount + 1)")
    have ih: "r = Inl (err (retryAttempts cfg))
              \<and> length (filter (\<lambda>ev. \<not> isBackoff ev) trace) = retryAttempts cfg + 1 - (retryCount + 1)"
      using "1.IH"[OF a True refl] "1.prems" True rec by simp
    have "scrapeProductPage cfg page draws retryCount
            = (Attempt (retryCount + 1)
                # Backoff (randomDelay (retryDelay cfg) (retryDelay cfg * 2) (draws retryCount)) # trace, r)"
      using a True rec by (subst scrapeProductPage.simps) simp
    then show ?thesis using ih True by (simp add: isBackoff_def)
  next
    case False
    then have "retryCount = retryAttempts cfg" using "1.prems"(1) by simp
    then show ?thesis using a by (subst scrapeProductPage.simps, subst (2) scrapeProductPage.simps) (simp add: isBackoff_def)
  qed
qed

lemma third_time_lucky:
  assumes "attempt page 0 = Inl e0" "attempt page 1 = Inl e1" "attempt page 2 = Inr res"
    and "2 \<le> retryAttempts cfg"
  shows "scrapeProductPage cfg page draws 0
           = ([Attempt 1, Backoff (randomDelay (retryDelay cfg) (retryDelay cfg * 2) (draws 0)),
               Attempt 2, Backoff (randomDelay (retryDelay cfg) (retryDelay cfg * 2) (draws 1)),
               Attempt 3], Inr res)"
proof -
  have s2: "scrapeProductPage cfg page draws 2 = ([Attempt 3], Inr res)"
    using assms by (subst scrapeProductPage.simps) simp
  have s1: "scrapeProductPage cfg page draws 1
              = ([Attempt 2, Backoff (randomDelay (retryDelay cfg) (retryDelay cfg * 2) (draws 1)), Attempt 3], Inr res)"
    using assms s2 by (subst scrapeProductPage.simps) (simp add: numeral_2_eq_2)
  show ?thesis
    using assms s1 by (subst scrapeProductPage.simps) simp
qed

definition demoConfig :: config where
  "demoConfig = \<lparr>retryAttempts = 3, retryDelay = 5000\<rparr>"

definition flakyPage :: "string page" where
  "flakyPage =
     \<lparr>gotoNetworkIdle = (\<lambda>k. if k < 2 then Some ''Timeout 60000ms exceeded'' else None),
      gotoDomContentLoaded = (\<lambda>k. if k < 2 then Some ''net::ERR_CONNECTION_RESET'' else None),
      afterNavigation = (\<lambda>k. Inr ''done'')\<rparr>"

definition deadPage :: "string page" where
  "deadPage =
     \<lparr>gotoNetworkIdle = (\<lambda>k. Some ''Timeout 60000ms exceeded''),
      gotoDomContentLoaded = (\<lambda>k. Some ''net::ERR_CONNECTION_RESET''),
      afterNavigation = (\<lambda>k. Inr ''done'')\<rparr>"

lemma eval_flaky_attempts:
  "attempt flakyPage 0 = Inl ''net::ERR_CONNECTION_RESET''
   \<and> attempt flakyPage 1 = Inl ''net::ERR_CONNECTION_RESET''
   \<and> attempt flakyPage 2 = Inr ''done''"
  by (simp add: attempt_def flakyPage_def)

lemma eval_dead_attempts: "attempt deadPage k = Inl ''net::ERR_CONNECTION_RESET''"
  by (simp add: attempt_def deadPage_def)

text \<open>
  C5, as stated, fails in two places.  The delay does not grow with the attempt number:
  every delay is drawn from the same range, \<open>retryDelay\<close> to twice \<open>retryDelay\<close>, and in
  the run below the delay before attempt 3 (5000 ms) is shorter than the one before
  attempt 2 (10000 ms).  And \<open>retryAttempts\<close> counts the retries: with
  \<open>retryAttempts = 3\<close> a page that always fails is tried four times.
\<close>

theorem backoff_does_not_grow:
  "scrapeProductPage demoConfig flakyPage (\<lambda>k. if k = 0 then 5000 else 0) 0
     = ([Attempt 1, Backoff 10000, Attempt 2, Backoff 5000, Attempt 3], Inr ''done'')
   \<and> length (filter (\<lambda>ev. \<not> isBackoff ev) (fst (scrapeProductPage demoConfig deadPage (\<lambda>k. 0) 0)))
       = 4"
proof -
  have a: "scrapeProductPage demoConfig flakyPage (\<lambda>k. if k = 0 then 5000 else 0) 0
             = ([Attempt 1, Backoff 10000, Attempt 2, Backoff 5000, Attempt 3], Inr ''done'')"
    using third_time_lucky[of flakyPage _ _ "''done''" demoConfig "\<lambda>k. if k = 0 then 5000 else 0"]
      eval_flaky_attempts
    by (simp add: demoConfig_def randomDelay_def)
  have b: "length (filter (\<lambda>ev. \<not> isBackoff ev) (fst (scrapeProductPage demoConfig deadPage (\<lambda>k. 0) 0))) = 4"
    using all_fail[of 0 demoConfig deadPage "\<lambda>k. ''net::ERR_CONNECTION_RESET''" "\<lambda>k. 0"]
      eval_dead_attempts
    by (simp add: demoConfig_def)
  show ?thesis using a b by blast
qed

text \<open>
  The whole run from any retry count: when the attempts numbered \<open>j\<close> to \<open>n - 1\<close> throw
  and attempt \<open>n\<close> is the first to succeed, or the last one allowed, every attempt before
  it is followed by one delay and the next attempt, and the call ends as attempt \<open>n\<close>
  ends.
\<close>

lemma scrape_from:
  assumes cap: "n \<le> retryAttempts cfg"
    and final: "isl (attempt page n) \<longrightarrow> n = retryAttempts cfg"
  shows "j \<le> n \<Longrightarrow> (\<forall>k. j \<le> k \<and> k < n \<longrightarrow> isl (attempt page k)) \<Longrightarrow>
     scrapeProductPage cfg page draws j
       = (concat (map (\<lambda>k. [Attempt (k + 1),
                               Backoff (randomDelay (retryDelay cfg) (retryDelay cfg * 2) (draws k))])
                    [j..<n]) @ [Attempt (n + 1)],
          attempt page n)"
proof (induction "n - j" arbitrary: j)
  case 0
  then have j: "j = n" by simp
  show ?case
  proof (cases "attempt page n")
    case (Inl e)
    then have "\<not> n < retryAttempts cfg" using final by simp
    then show ?thesis unfolding j using Inl by (subst scrapeProductPage.simps) simp
  next
    case (Inr res)
    then show ?thesis unfolding j by (subst scrapeProductPage.simps) simp
  qed
next
  case (Suc m)
  then have lt: "j < n" by simp
  then obtain e where e: "attempt page j = Inl e"
    using Suc.prems(2) by (cases "attempt page j") auto
  have c: "j < retryAttempts cfg" using lt cap by simp
  have m: "m = n - Suc j" using Suc.hyps(2) by simp
  have ih: "scrapeProductPage cfg page draws (Suc j)
              = (concat (map (\<lambda>k. [Attempt (k + 1),
                                      Backoff (randomDelay (retryDelay cfg) (retryDelay cfg * 2) (draws k))])
                           [Suc j..<n]) @ [Attempt (n + 1)],
                 attempt page n)"
    using Suc.hyps(1)[OF m] Suc.prems(2) lt by simp
  have u: "[j..<n] = j # [Suc j..<n]" using lt by (simp add: upt_conv_Cons)
  show ?case unfolding u using e c ih by (subst scrapeProductPage.simps) simp
qed

text \<open>
  Every run is of this shape: \<open>n\<close> is the number of the first attempt that succeeds, or
  \<open>retryAttempts\<close> when none of the attempts allowed does.
\<close>

lemma retry_end_exists:
  "\<exists>n \<le> retryAttempts cfg.
     (\<forall>k<n. isl (attempt page k)) \<and> (isl (attempt page n) \<longrightarrow> n = retryAttempts cfg)"
proof (cases "\<exists>k \<le> retryAttempts cfg. \<not> isl (attempt page k)")
  case True
  define n where "n = (LEAST k. \<not> isl (attempt page k))"
  from True obtain k where k: "k \<le> retryAttempts cfg" "\<not> isl (attempt page k)" by blast
  have a: "\<not> isl (attempt page n)" unfolding n_def using k(2) by (rule LeastI)
  have b: "n \<le> k" unfolding n_def using k(2) by (rule Least_le)
  have c: "isl (attempt page i)" if "i < n" for i
    using not_less_Least[of i "\<lambda>k. \<not> isl (attempt page k)"] that unfolding n_def by blast
  show ?thesis using a b c k(1) by (intro exI[of _ n]) auto
next
  case False
  then show ?thesis by (intro exI[of _ "retryAttempts cfg"]) auto
qed

text \<open>
  C5, amended.  Let the attempts before attempt \<open>n + 1\<close> throw (they are numbered from 0
  by \<open>retryCount\<close> and from 1 in the trace), with \<open>n\<close> at most \<open>retryAttempts\<close>, and let
  attempt \<open>n + 1\<close> succeed or be the last one allowed, \<open>n = retryAttempts\<close>.  Then the
  trace of the call is exactly this: every attempt that throws is followed by one delay
  and then by the next attempt, nothing precedes attempt 1, and attempt \<open>n + 1\<close> ends the
  trace; the call returns what attempt \<open>n + 1\<close> returns or throws the error it throws,
  so after \<open>retryAttempts + 1\<close> failed attempts the last error reaches the caller.  Every
  delay lies between \<open>retryDelay\<close> and twice \<open>retryDelay\<close>, the same range before every
  retry.  With \<open>n = 2\<close> this is the scenario of two failures and a success: one delay
  before attempt 2, one before attempt 3, none before attempt 1.
\<close>

theorem retry_until_cap:
  assumes "n \<le> retryAttempts cfg"
    and "\<forall>k<n. isl (attempt page k)"
    and "isl (attempt page n) \<longrightarrow> n = retryAttempts cfg"
  shows "scrapeProductPage cfg page draws 0
           = (concat (map (\<lambda>k. [Attempt (k + 1),
                                   Backoff (randomDelay (retryDelay cfg) (retryDelay cfg * 2) (draws k))])
                        [0..<n]) @ [Attempt (n + 1)],
              attempt page n)
         \<and> (\<forall>k. retryDelay cfg \<le> randomDelay (retryDelay cfg) (retryDelay cfg * 2) (draws k)
                \<and> randomDelay (retryDelay cfg) (retryDelay cfg * 2) (draws k) \<le> retryDelay cfg * 2)"
  using scrape_from[OF assms(1,3), of 0 draws] assms(2) randomDelay_range[of "retryDelay cfg"]
  by simp

lemma eval_upt: "[0..<2] = [0, 1::nat] \<and> [0..<3] = [0, 1, 2::nat]"
  by code_simp

theorem retry_until_cap_witness:
  "2 \<le> retryAttempts demoConfig
   \<and> list_all (\<lambda>k. isl (attempt flakyPage k)) [0, 1]
   \<and> \<not> isl (attempt flakyPage 2)
   \<and> scrapeProductPage demoConfig flakyPage (\<lambda>k. 7 * k) 0
       = ([Attempt 1, Backoff 5000, Attempt 2, Backoff 5007, Attempt 3], Inr ''done'')
   \<and> scrapeProductPage demoConfig deadPage (\<lambda>k. 7 * k) 0
       = ([Attempt 1, Backoff 5000, Attempt 2, Backoff 5007, Attempt 3, Backoff 5014, Attempt 4],
          Inl ''net::ERR_CONNECTION_RESET'')"
proof -
  have c: "2 \<le> retryAttempts demoConfig" "3 \<le> retryAttempts demoConfig"
    "retryAttempts demoConfig = 3"
    by (simp_all add: demoConfig_def)
  have f: "attempt flakyPage 0 = Inl ''net::ERR_CONNECTION_RESET''"
    "attempt flakyPage 1 = Inl ''net::ERR_CONNECTION_RESET''"
    "attempt flakyPage 2 = Inr ''done''"
    using eval_flaky_attempts by blast+
  have fl: "\<forall>k<2. isl (attempt flakyPage k)"
  proof (intro allI impI)
    fix k :: nat assume "k < 2"
    then have "k = 0 \<or> k = 1" by auto
    then show "isl (attempt flakyPage k)" using f by auto
  qed
  have fe: "isl (attempt flakyPage 2) \<longrightarrow> 2 = retryAttempts demoConfig" using f by simp
  have dl: "\<forall>k<3. isl (attempt deadPage k)" by (simp add: eval_dead_attempts)
  have de: "isl (attempt deadPage 3) \<longrightarrow> 3 = retryAttempts demoConfig" using c by simp
  from retry_until_cap[OF c(1) fl fe, of "\<lambda>k. 7 * k"]
  have a: "scrapeProductPage demoConfig flakyPage (\<lambda>k. 7 * k) 0
             = ([Attempt 1, Backoff 5000, Attempt 2, Backoff 5007, Attempt 3], Inr ''done'')"
    using f eval_upt by (simp add: randomDelay_def demoConfig_def)
  from retry_until_cap[OF c(2) dl de, of "\<lambda>k. 7 * k"]
  have b: "scrapeProductPage demoConfig deadPage (\<lambda>k. 7 * k) 0
             = ([Attempt 1, Backoff 5000, Attempt 2, Backoff 5007, Attempt 3, Backoff 5014, Attempt 4],
                Inl ''net::ERR_CONNECTION_RESET'')"
    using eval_upt by (simp add: randomDelay_def demoConfig_def eval_dead_attempts)
  show ?thesis using a b c f by simp
qed

end
